theory Spec2Isabelle
  imports Main
begin

section \<open>Python primitives used by the checkers program\<close>

text \<open>
  Exceptions of the source are values: a function that can raise returns
  \<open>error + 'a\<close>, with \<open>Inl\<close> for the exception.  Board coordinates are natural
  numbers: every caller takes them from \<open>range(0, 8)\<close> or from the digits of a move.
\<close>

datatype error = IndexError | ValueError

text \<open>\<open>str(n)\<close> for a non-negative integer: its decimal digits.\<close>

definition digit_char :: "nat \<Rightarrow> char" where
  "digit_char n = char_of (48 + n)"

fun str :: "nat \<Rightarrow> string" where
  "str n = (if n < 10 then [digit_char n] else str (n div 10) @ [digit_char (n mod 10)])"

declare str.simps [simp del]

text \<open>\<open>s[i]\<close> on a string, and \<open>int(ch)\<close> on a one-character string.\<close>

definition char_at :: "string \<Rightarrow> nat \<Rightarrow> error + char" where
  "char_at s i = (if i < length s then Inr (s ! i) else Inl IndexError)"

definition int_of_char :: "char \<Rightarrow> error + nat" where
  "int_of_char ch =
     (let n = (of_char ch :: nat)
      in if 48 \<le> n \<and> n \<le> 57 then Inr (n - 48) else Inl ValueError)"

text \<open>\<open>int(s[i])\<close>: the index is checked first, then the digit.\<close>

definition digit_at :: "string \<Rightarrow> nat \<Rightarrow> error + nat" where
  "digit_at s i = (case char_at s i of Inl e \<Rightarrow> Inl e | Inr ch \<Rightarrow> int_of_char ch)"

section \<open>Data model (final\_game.py)\<close>

record Move =
  move :: string
  piece_captured :: bool

record Piece =
  is_white :: bool
  is_king :: bool

type_synonym 'a grid = "'a option list list"

type_synonym board_t = "Piece grid"

text \<open>
  A game object holds its board by reference.  \<open>'b CheckersGame_obj\<close> is the object
  with a board of type \<open>'b\<close>: the board itself in \<open>CheckersGame\<close>, which stands for a
  game together with the board and the pieces only it can reach, and an address in the
  store model at the end of this theory, where boards are shared.
\<close>

record 'b CheckersGame_obj =
  board :: 'b
  is_white_move :: bool
  gamestate :: string
  white_win :: bool
  player_turn :: bool
  moves_since_cap :: int
  is_draw :: bool
  main_game :: bool

type_synonym CheckersGame = "board_t CheckersGame_obj"

text \<open>\<open>Piece(is_white)\<close>: a new piece is never a king.\<close>

definition new_Piece :: "bool \<Rightarrow> Piece" where
  "new_Piece w = \<lparr>is_white = w, is_king = False\<rparr>"

definition DEFAULT_BOARD_SETUP :: board_t where
  "DEFAULT_BOARD_SETUP =
    [[Some (new_Piece True), None, Some (new_Piece True), None,
      Some (new_Piece True), None, Some (new_Piece True), None],
     [None, Some (new_Piece True), None, Some (new_Piece True),
      None, Some (new_Piece True), None, Some (new_Piece True)],
     [Some (new_Piece True), None, Some (new_Piece True), None,
      Some (new_Piece True), None, Some (new_Piece True), None],
     [None, None, None, None, None, None, None, None],
     [None, None, None, None, None, None, None, None],
     [None, Some (new_Piece False), None, Some (new_Piece False),
      None, Some (new_Piece False), None, Some (new_Piece False)],
     [Some (new_Piece False), None, Some (new_Piece False), None,
      Some (new_Piece False), None, Some (new_Piece False), None],
     [None, Some (new_Piece False), None, Some (new_Piece False),
      None, Some (new_Piece False), None, Some (new_Piece False)]]"

text \<open>
  \<open>CheckersGame(is_white_move, board, gamestate)\<close> with a board given.  (The
  constructor called without a board is modelled with the store, further down.)
\<close>

definition new_CheckersGame :: "bool \<Rightarrow> board_t \<Rightarrow> string \<Rightarrow> CheckersGame" where
  "new_CheckersGame w b gs =
     \<lparr>board = b, is_white_move = w, gamestate = gs, white_win = True,
      player_turn = True, moves_since_cap = 0, is_draw = False, main_game = True\<rparr>"

text \<open>
  \<open>board[r][c]\<close> read and written; out of range raises IndexError.  The code that
  reads and writes squares never looks into a piece, so these functions are stated
  for squares of any content.
\<close>

definition cell :: "'a grid \<Rightarrow> nat \<times> nat \<Rightarrow> error + 'a option" where
  "cell b loc =
     (if fst loc < length b \<and> snd loc < length (b ! fst loc)
      then Inr (b ! fst loc ! snd loc) else Inl IndexError)"

definition put :: "'a grid \<Rightarrow> nat \<times> nat \<Rightarrow> 'a option \<Rightarrow> 'a grid" where
  "put b loc v = b[fst loc := (b ! fst loc)[snd loc := v]]"

definition set_cell :: "'a grid \<Rightarrow> nat \<times> nat \<Rightarrow> 'a option \<Rightarrow> error + 'a grid" where
  "set_cell b loc v =
     (if fst loc < length b \<and> snd loc < length (b ! fst loc)
      then Inr (put b loc v) else Inl IndexError)"

subsection \<open>return\_all\_pieces\_location\<close>

text \<open>
  The two nested loops over \<open>range(0, 8)\<close> visit the squares in row-major order;
  \<open>pieces_loop\<close> is the loop body run over the squares still to visit.
\<close>

fun pieces_loop ::
  "board_t \<Rightarrow> string \<Rightarrow> (nat \<times> nat) list \<Rightarrow> ((nat \<times> nat) \<times> Piece) list
     \<Rightarrow> error + ((nat \<times> nat) \<times> Piece) list" where
  "pieces_loop b colour [] pieces_so_far = Inr pieces_so_far"
| "pieces_loop b colour (loc # rest) pieces_so_far =
     (case cell b loc of
        Inl e \<Rightarrow> Inl e
      | Inr None \<Rightarrow> pieces_loop b colour rest pieces_so_far
      | Inr (Some p) \<Rightarrow>
          if colour = ''any'' then pieces_loop b colour rest (pieces_so_far @ [(loc, p)])
          else if colour = ''white'' \<and> is_white p
            then pieces_loop b colour rest (pieces_so_far @ [(loc, p)])
          else if colour = ''black'' \<and> \<not> is_white p
            then pieces_loop b colour rest (pieces_so_far @ [(loc, p)])
          else pieces_loop b colour rest pieces_so_far)"

definition all_squares :: "(nat \<times> nat) list" where
  "all_squares = List.product [0..<8] [0..<8]"

definition return_all_pieces_location ::
  "CheckersGame \<Rightarrow> string \<Rightarrow> error + ((nat \<times> nat) \<times> Piece) list" where
  "return_all_pieces_location g colour = pieces_loop (board g) colour all_squares []"

subsection \<open>make\_copy\_game\<close>

text \<open>
  The copy is built by the constructor from deep copies of the side to move and of
  the board: it is a root-less game in the 'MENU' state with a counter of 0.
\<close>

definition make_copy_game :: "CheckersGame \<Rightarrow> CheckersGame" where
  "make_copy_game g =
     (new_CheckersGame (is_white_move g) (board g) ''MENU'')
       \<lparr>moves_since_cap := 0, main_game := False\<rparr>"

subsection \<open>The four directional probes and the capture chain\<close>

text \<open>
  \<open>check_tl\<close>, \<open>check_tr\<close>, \<open>check_bl\<close> and \<open>check_br\<close> are one text in the source, up
  to the bounds they test and the offsets they add.  The model keeps one function
  \<open>check_dir\<close> with the direction as a parameter, and the bounds and offsets of each
  source function in the four tables below.
\<close>

datatype direction = TL | TR | BL | BR

fun edge_ok :: "direction \<Rightarrow> nat \<times> nat \<Rightarrow> bool" where
  "edge_ok TL loc = (snd loc \<noteq> 0 \<and> fst loc \<noteq> 7)"
| "edge_ok TR loc = (snd loc \<noteq> 7 \<and> fst loc \<noteq> 7)"
| "edge_ok BL loc = (snd loc \<noteq> 0 \<and> fst loc \<noteq> 0)"
| "edge_ok BR loc = (snd loc \<noteq> 7 \<and> fst loc \<noteq> 0)"

fun step :: "direction \<Rightarrow> nat \<times> nat \<Rightarrow> nat \<times> nat" where
  "step TL loc = (fst loc + 1, snd loc - 1)"
| "step TR loc = (fst loc + 1, snd loc + 1)"
| "step BL loc = (fst loc - 1, snd loc - 1)"
| "step BR loc = (fst loc - 1, snd loc + 1)"

fun jump_ok :: "direction \<Rightarrow> nat \<times> nat \<Rightarrow> bool" where
  "jump_ok TL loc = (snd loc > 1 \<and> fst loc < 6)"
| "jump_ok TR loc = (snd loc < 6 \<and> fst loc < 6)"
| "jump_ok BL loc = (snd loc > 1 \<and> fst loc > 1)"
| "jump_ok BR loc = (snd loc < 6 \<and> fst loc > 1)"

fun jump :: "direction \<Rightarrow> nat \<times> nat \<Rightarrow> nat \<times> nat" where
  "jump TL loc = (fst loc + 2, snd loc - 2)"
| "jump TR loc = (fst loc + 2, snd loc + 2)"
| "jump BL loc = (fst loc - 2, snd loc - 2)"
| "jump BR loc = (fst loc - 2, snd loc + 2)"

text \<open>The digit string of one hop, \<open>str(r) + str(c) + str(r') + str(c')\<close>.\<close>

definition hop_str :: "nat \<times> nat \<Rightarrow> nat \<times> nat \<Rightarrow> string" where
  "hop_str a b = str (fst a) @ str (snd a) @ str (fst b) @ str (snd b)"

definition midpoint :: "nat \<times> nat \<Rightarrow> nat \<times> nat \<Rightarrow> nat \<times> nat" where
  "midpoint a b = ((fst a + fst b) div 2, (snd a + snd b) div 2)"

definition count_pieces :: "board_t \<Rightarrow> nat" where
  "count_pieces b = sum_list (map (\<lambda>row. length (filter (\<lambda>x. x \<noteq> None) row)) b)"

function check_dir ::
    "direction \<Rightarrow> CheckersGame \<Rightarrow> bool \<Rightarrow> nat \<times> nat \<Rightarrow> Piece \<Rightarrow> bool \<Rightarrow> error + Move list"
  and check_additional_capture ::
    "CheckersGame \<Rightarrow> nat \<times> nat \<Rightarrow> nat \<times> nat \<Rightarrow> Piece \<Rightarrow> error + Move list" where
  "check_dir d g white loc piece_used double =
     (if edge_ok d loc \<and> white then
        (case cell (board g) (step d loc) of
           Inl e \<Rightarrow> Inl e
         | Inr None \<Rightarrow>
             if \<not> double then Inr [\<lparr>move = hop_str loc (step d loc), piece_captured = False\<rparr>]
             else Inr []
         | Inr (Some q) \<Rightarrow>
             if \<not> is_white q \<and> jump_ok d loc then
               (case cell (board g) (jump d loc) of
                  Inl e \<Rightarrow> Inl e
                | Inr (Some q') \<Rightarrow> Inr []
                | Inr None \<Rightarrow>
                    (case check_additional_capture g loc (jump d loc) piece_used of
                       Inl e \<Rightarrow> Inl e
                     | Inr chain \<Rightarrow>
                         Inr (\<lparr>move = hop_str loc (jump d loc), piece_captured = True\<rparr> # chain)))
             else Inr [])
      else if edge_ok d loc \<and> \<not> white then
        (case cell (board g) (step d loc) of
           Inl e \<Rightarrow> Inl e
         | Inr None \<Rightarrow>
             if \<not> double then Inr [\<lparr>move = hop_str loc (step d loc), piece_captured = False\<rparr>]
             else Inr []
         | Inr (Some q) \<Rightarrow>
             if is_white q \<and> jump_ok d loc then
               (case cell (board g) (jump d loc) of
                  Inl e \<Rightarrow> Inl e
                | Inr (Some q') \<Rightarrow> Inr []
                | Inr None \<Rightarrow>
                    (case check_additional_capture g loc (jump d loc) piece_used of
                       Inl e \<Rightarrow> Inl e
                     | Inr chain \<Rightarrow>
                         Inr (\<lparr>move = hop_str loc (jump d loc), piece_captured = True\<rparr> # chain)))
             else Inr [])
      else Inr [])"
| "check_additional_capture g og_loc loc piece_used =
     (case set_cell (board (make_copy_game g)) (midpoint og_loc loc) None of
        Inl e \<Rightarrow> Inl e
      | Inr b' \<Rightarrow>
          (let test_game = (make_copy_game g)\<lparr>board := b'\<rparr> in
           case
             (if is_white_move g \<and> \<not> is_king piece_used then
                (case check_dir TL test_game (is_white_move g) loc piece_used True of
                   Inl e \<Rightarrow> Inl e
                 | Inr m1 \<Rightarrow>
                (case check_dir TR test_game (is_white_move g) loc piece_used True of
                   Inl e \<Rightarrow> Inl e
                 | Inr m2 \<Rightarrow> Inr (m1 @ m2)))
              else if \<not> is_white_move g \<and> \<not> is_king piece_used then
                (case check_dir BL test_game (is_white_move g) loc piece_used True of
                   Inl e \<Rightarrow> Inl e
                 | Inr m1 \<Rightarrow>
                (case check_dir BR test_game (is_white_move g) loc piece_used True of
                   Inl e \<Rightarrow> Inl e
                 | Inr m2 \<Rightarrow> Inr (m1 @ m2)))
              else
                (case check_dir TL test_game (is_white_move g) loc piece_used True of
                   Inl e \<Rightarrow> Inl e
                 | Inr m1 \<Rightarrow>
                (case check_dir TR test_game (is_white_move g) loc piece_used True of
                   Inl e \<Rightarrow> Inl e
                 | Inr m2 \<Rightarrow>
                (case check_dir BL test_game (is_white_move g) loc piece_used True of
                   Inl e \<Rightarrow> Inl e
                 | Inr m3 \<Rightarrow>
                (case check_dir BR test_game (is_white_move g) loc piece_used True of
                   Inl e \<Rightarrow> Inl e
                 | Inr m4 \<Rightarrow> Inr (m1 @ m2 @ m3 @ m4))))))
           of
             Inl e \<Rightarrow> Inl e
           | Inr moves_list \<Rightarrow>
               Inr (map (\<lambda>possible_move.
                           possible_move\<lparr>move := str (fst og_loc) @ str (snd og_loc) @ move possible_move\<rparr>)
                        moves_list)))"
  by pat_completeness auto

lemma filter_update_None_less:
  "c < length row \<Longrightarrow> row ! c = Some q \<Longrightarrow>
   length (filter (\<lambda>x. x \<noteq> None) (row[c := None])) < length (filter (\<lambda>x. x \<noteq> None) row)"
proof (induction row arbitrary: c)
  case Nil
  then show ?case by simp
next
  case (Cons x xs)
  then show ?case by (cases c) auto
qed

lemma filter_update_None_le:
  "length (filter (\<lambda>x. x \<noteq> None) (row[c := None])) \<le> length (filter (\<lambda>x. x \<noteq> None) row)"
proof (induction row arbitrary: c)
  case Nil
  then show ?case by simp
next
  case (Cons x xs)
  then show ?case by (cases c) (auto simp: le_SucI)
qed

lemma count_pieces_put_None:
  assumes "cell b loc = Inr (Some q)"
  shows "count_pieces (put b loc None) < count_pieces b"
proof -
  from assms have r: "fst loc < length b" and c: "snd loc < length (b ! fst loc)"
    and v: "b ! fst loc ! snd loc = Some q"
    by (auto simp: cell_def split: if_splits)
  let ?f = "\<lambda>row. length (filter (\<lambda>x. x \<noteq> None) row)"
  have lt: "?f ((b ! fst loc)[snd loc := None]) < ?f (b ! fst loc)"
    using filter_update_None_less [OF c v] .
  have le: "?f (b ! fst loc) \<le> sum_list (map ?f b)"
  proof -
    have "?f (b ! fst loc) \<in> set (map ?f b)"
      using r by (auto intro!: imageI)
    then show ?thesis
      by (simp add: member_le_sum_list)
  qed
  have "sum_list (map ?f (b[fst loc := (b ! fst loc)[snd loc := None]]))
        = sum_list (map ?f b) + ?f ((b ! fst loc)[snd loc := None]) - ?f (b ! fst loc)"
    using r by (simp add: map_update sum_list_update)
  with lt le show ?thesis
    by (simp add: count_pieces_def put_def)
qed

lemma midpoint_jump:
  "edge_ok d loc \<Longrightarrow> jump_ok d loc \<Longrightarrow> midpoint loc (jump d loc) = step d loc"
  by (cases d) (auto simp: midpoint_def)

lemma set_cell_Inr: "set_cell b loc v = Inr b' \<Longrightarrow> b' = put b loc v"
  by (auto simp: set_cell_def split: if_splits)

lemma board_make_copy_game [simp]: "board (make_copy_game g) = board g"
  by (simp add: make_copy_game_def new_CheckersGame_def)

lemma is_white_move_make_copy_game [simp]: "is_white_move (make_copy_game g) = is_white_move g"
  by (simp add: make_copy_game_def new_CheckersGame_def)

termination check_dir
proof (relation "measure (\<lambda>x. case x of
          Inl (d, g, white, loc, piece_used, double) \<Rightarrow> 2 * count_pieces (board g)
        | Inr (g, og_loc, loc, piece_used) \<Rightarrow>
            2 * count_pieces (put (board g) (midpoint og_loc loc) None) + 1)", goal_cases)
  case 1
  then show ?case by simp
next
  case (2 d g white loc piece_used double x q)
  then show ?case
    using count_pieces_put_None [of "board g" "step d loc" q]
    by (simp add: midpoint_jump)
next
  case (3 d g white loc piece_used double x q)
  then show ?case
    using count_pieces_put_None [of "board g" "step d loc" q]
    by (simp add: midpoint_jump)
qed (auto dest!: set_cell_Inr)

declare check_dir.simps [simp del] check_additional_capture.simps [simp del]


definition check_tl :: "CheckersGame \<Rightarrow> bool \<Rightarrow> nat \<times> nat \<Rightarrow> Piece \<Rightarrow> bool \<Rightarrow> error + Move list" where
  "check_tl g white loc piece_used double = check_dir TL g white loc piece_used double"

definition check_tr :: "CheckersGame \<Rightarrow> bool \<Rightarrow> nat \<times> nat \<Rightarrow> Piece \<Rightarrow> bool \<Rightarrow> error + Move list" where
  "check_tr g white loc piece_used double = check_dir TR g white loc piece_used double"

definition check_bl :: "CheckersGame \<Rightarrow> bool \<Rightarrow> nat \<times> nat \<Rightarrow> Piece \<Rightarrow> bool \<Rightarrow> error + Move list" where
  "check_bl g white loc piece_used double = check_dir BL g white loc piece_used double"

definition check_br :: "CheckersGame \<Rightarrow> bool \<Rightarrow> nat \<times> nat \<Rightarrow> Piece \<Rightarrow> bool \<Rightarrow> error + Move list" where
  "check_br g white loc piece_used double = check_dir BR g white loc piece_used double"

subsection \<open>find\_legal\_moves and find\_legal\_moves\_one\_piece\<close>

text \<open>\<open>normal_moves.extend(probe)\<close>, where either side may already have raised.\<close>

definition extend_with :: "error + 'a list \<Rightarrow> error + 'a list \<Rightarrow> error + 'a list" where
  "extend_with acc r =
     (case acc of
        Inl e \<Rightarrow> Inl e
      | Inr xs \<Rightarrow> (case r of Inl e \<Rightarrow> Inl e | Inr ys \<Rightarrow> Inr (xs @ ys)))"

text \<open>
  The probes made for one piece: forward left and right for the side to move, and
  the two backward ones after them when the piece is a king.
\<close>

definition piece_probes ::
  "CheckersGame \<Rightarrow> (nat \<times> nat) \<times> Piece \<Rightarrow> error + Move list \<Rightarrow> error + Move list" where
  "piece_probes g piece_info normal_moves =
     (if is_white_move g then
        (let nm = extend_with (extend_with normal_moves
                     (check_tl g (is_white_move g) (fst piece_info) (snd piece_info) False))
                     (check_tr g (is_white_move g) (fst piece_info) (snd piece_info) False)
         in if is_king (snd piece_info) then
              extend_with (extend_with nm
                (check_bl g (is_white_move g) (fst piece_info) (snd piece_info) False))
                (check_br g (is_white_move g) (fst piece_info) (snd piece_info) False)
            else nm)
      else
        (let nm = extend_with (extend_with normal_moves
                     (check_bl g (is_white_move g) (fst piece_info) (snd piece_info) False))
                     (check_br g (is_white_move g) (fst piece_info) (snd piece_info) False)
         in if is_king (snd piece_info) then
              extend_with (extend_with nm
                (check_tl g (is_white_move g) (fst piece_info) (snd piece_info) False))
                (check_tr g (is_white_move g) (fst piece_info) (snd piece_info) False)
            else nm))"

text \<open>The second pass and the return: the captures if there is one, else all moves.\<close>

definition captures_first :: "Move list \<Rightarrow> Move list" where
  "captures_first normal_moves =
     (let capture_moves = filter piece_captured normal_moves
      in if capture_moves \<noteq> [] then capture_moves else normal_moves)"

definition find_legal_moves :: "CheckersGame \<Rightarrow> error + Move list" where
  "find_legal_moves g =
     (case return_all_pieces_location g (if is_white_move g then ''white'' else ''black'') of
        Inl e \<Rightarrow> Inl e
      | Inr pieces_to_check \<Rightarrow>
          (case fold (piece_probes g) pieces_to_check (Inr []) of
             Inl e \<Rightarrow> Inl e
           | Inr normal_moves \<Rightarrow> Inr (captures_first normal_moves)))"

definition find_legal_moves_one_piece ::
  "CheckersGame \<Rightarrow> (nat \<times> nat) \<times> Piece \<Rightarrow> error + Move list" where
  "find_legal_moves_one_piece g piece_info =
     (case piece_probes g piece_info (Inr []) of
        Inl e \<Rightarrow> Inl e
      | Inr normal_moves \<Rightarrow> Inr (captures_first normal_moves))"

subsection \<open>make\_move and \_update\_pieces\<close>

definition bind :: "error + 'a \<Rightarrow> ('a \<Rightarrow> error + 'b) \<Rightarrow> error + 'b" where
  "bind x f = (case x of Inl e \<Rightarrow> Inl e | Inr v \<Rightarrow> f v)"

text \<open>
  \<open>board[int(s[i])][int(s[j])]\<close> read and written.  Python takes the row before it
  looks at the second digit, so a bad row index is reported first.
\<close>

definition row_at :: "'a grid \<Rightarrow> nat \<Rightarrow> error + 'a option list" where
  "row_at b r = (if r < length b then Inr (b ! r) else Inl IndexError)"

definition read_at :: "'a grid \<Rightarrow> string \<Rightarrow> nat \<Rightarrow> nat \<Rightarrow> error + 'a option" where
  "read_at b s i j =
     bind (digit_at s i) (\<lambda>r. bind (row_at b r) (\<lambda>row. bind (digit_at s j) (\<lambda>c.
       if c < length row then Inr (row ! c) else Inl IndexError)))"

definition write_at :: "'a grid \<Rightarrow> string \<Rightarrow> nat \<Rightarrow> nat \<Rightarrow> 'a option \<Rightarrow> error + 'a grid" where
  "write_at b s i j v =
     bind (digit_at s i) (\<lambda>r. bind (row_at b r) (\<lambda>row. bind (digit_at s j) (\<lambda>c.
       if c < length row then Inr (put b (r, c) v) else Inl IndexError)))"

text \<open>
  The tuple assignment \<open>board[a], board[b] = None, board[a]\<close>, with \<open>a\<close> read at the
  digits \<open>i, i+1\<close> and \<open>b\<close> at \<open>i+2, i+3\<close>: the right side first, then the two
  targets from left to right.
\<close>

definition relocate :: "'a grid \<Rightarrow> string \<Rightarrow> nat \<Rightarrow> error + 'a grid" where
  "relocate b s i =
     bind (read_at b s i (i + 1)) (\<lambda>old.
     bind (write_at b s i (i + 1) None) (\<lambda>b1.
     write_at b1 s (i + 2) (i + 3) old))"

text \<open>Clearing the jumped square, at the midpoint of the hop's two squares.\<close>

definition clear_jumped :: "'a grid \<Rightarrow> string \<Rightarrow> nat \<Rightarrow> error + 'a grid" where
  "clear_jumped b s i =
     bind (digit_at s i) (\<lambda>r0. bind (digit_at s (i + 2)) (\<lambda>r1.
     bind (row_at b ((r0 + r1) div 2)) (\<lambda>row.
     bind (digit_at s (i + 1)) (\<lambda>c0. bind (digit_at s (i + 3)) (\<lambda>c1.
       if (c0 + c1) div 2 < length row
       then Inr (put b ((r0 + r1) div 2, (c0 + c1) div 2) None)
       else Inl IndexError)))))"

text \<open>The loop over \<open>submove_num\<close> of a capture move.\<close>

fun capture_hops :: "'a grid \<Rightarrow> string \<Rightarrow> nat list \<Rightarrow> error + 'a grid" where
  "capture_hops b s [] = Inr b"
| "capture_hops b s (submove_num # rest) =
     bind (relocate b s (submove_num * 2)) (\<lambda>b1.
     bind (clear_jumped b1 s (submove_num * 2)) (\<lambda>b2.
     capture_hops b2 s rest))"

text \<open>
  \<open>piece.is_king = True\<close> on the piece found at \<open>loc\<close>: pieces are held by value, so the
  square is rewritten.
\<close>

definition crown_step :: "(nat \<times> nat) \<times> Piece \<Rightarrow> board_t \<Rightarrow> board_t" where
  "crown_step piece_loc b =
     (if is_white (snd piece_loc) \<and> fst (fst piece_loc) = 7
        then put b (fst piece_loc) (Some ((snd piece_loc)\<lparr>is_king := True\<rparr>))
      else if \<not> is_white (snd piece_loc) \<and> fst (fst piece_loc) = 0
        then put b (fst piece_loc) (Some ((snd piece_loc)\<lparr>is_king := True\<rparr>))
      else b)"

definition update_pieces :: "CheckersGame \<Rightarrow> error + CheckersGame" where
  "update_pieces g =
     bind (return_all_pieces_location g ''any'') (\<lambda>locations.
       Inr (g\<lparr>board := fold crown_step locations (board g)\<rparr>))"

text \<open>
  The terminal check at the end of \<open>make_move\<close>.  \<open>find_legal_moves\<close> is the first
  conjunct of both tests, so it runs (and may raise) whatever \<open>main_game\<close> is.
\<close>

definition terminal_check :: "CheckersGame \<Rightarrow> error + CheckersGame" where
  "terminal_check g =
     bind (find_legal_moves g) (\<lambda>legal.
       if legal = [] \<and> is_white_move g \<and> main_game g
         then Inr (g\<lparr>white_win := False, gamestate := ''END''\<rparr>)
       else if legal = [] \<and> \<not> is_white_move g \<and> main_game g
         then Inr (g\<lparr>white_win := True, gamestate := ''END''\<rparr>)
       else if moves_since_cap g \<ge> 50 \<and> main_game g
         then Inr (g\<lparr>white_win := True, is_draw := True, gamestate := ''END''\<rparr>)
       else Inr g)"

definition make_move :: "CheckersGame \<Rightarrow> Move \<Rightarrow> error + CheckersGame" where
  "make_move g m =
     bind (if \<not> piece_captured m
             then bind (relocate (board g) (move m) 0) (\<lambda>b. Inr (g\<lparr>board := b\<rparr>))
           else bind (capture_hops (board g) (move m) [0 ..< length (move m) div 2 - 1])
                  (\<lambda>b. Inr (g\<lparr>moves_since_cap := - 1, board := b\<rparr>)))
       (\<lambda>g1. bind (update_pieces (g1\<lparr>is_white_move := \<not> is_white_move g1\<rparr>))
       (\<lambda>g2. terminal_check (g2\<lparr>moves_since_cap := moves_since_cap g2 + 1\<rparr>)))"

section \<open>The move generator, unfolded\<close>

text \<open>
  The probes of one piece, in the order the source makes them: \<open>start_dirs\<close> at the
  start of a move (\<open>find_legal_moves\<close>), \<open>chain_dirs\<close> when a capture chain goes on
  (\<open>_check_additional_capture\<close>).  \<open>probes\<close> runs a list of directions and appends the
  results; \<open>capture_game\<close> is the scratch copy with the jumped piece taken off.  The two
  lemmas that follow restate the recursive equations of the source in these terms.
\<close>

definition chain_dirs :: "bool \<Rightarrow> Piece \<Rightarrow> direction list" where
  "chain_dirs white_to_move piece_used =
     (if is_king piece_used then [TL, TR, BL, BR]
      else if white_to_move then [TL, TR] else [BL, BR])"

definition start_dirs :: "bool \<Rightarrow> Piece \<Rightarrow> direction list" where
  "start_dirs white_to_move piece_used =
     (if white_to_move then [TL, TR] @ (if is_king piece_used then [BL, BR] else [])
      else [BL, BR] @ (if is_king piece_used then [TL, TR] else []))"

fun probes ::
  "direction list \<Rightarrow> CheckersGame \<Rightarrow> bool \<Rightarrow> nat \<times> nat \<Rightarrow> Piece \<Rightarrow> bool \<Rightarrow> error + Move list" where
  "probes [] g white loc piece_used double = Inr []"
| "probes (d # ds) g white loc piece_used double =
     bind (check_dir d g white loc piece_used double) (\<lambda>m1.
     bind (probes ds g white loc piece_used double) (\<lambda>rest. Inr (m1 @ rest)))"

definition prefix_move :: "nat \<times> nat \<Rightarrow> Move \<Rightarrow> Move" where
  "prefix_move og_loc m = m\<lparr>move := str (fst og_loc) @ str (snd og_loc) @ move m\<rparr>"

definition capture_game :: "CheckersGame \<Rightarrow> nat \<times> nat \<Rightarrow> CheckersGame" where
  "capture_game g sq = (make_copy_game g)\<lparr>board := put (board g) sq None\<rparr>"

lemma check_additional_capture_unfold:
  "check_additional_capture g og_loc loc piece_used =
     bind (set_cell (board g) (midpoint og_loc loc) None) (\<lambda>b'.
     bind (probes (chain_dirs (is_white_move g) piece_used)
             ((make_copy_game g)\<lparr>board := b'\<rparr>) (is_white_move g) loc piece_used True)
       (\<lambda>moves_list. Inr (map (prefix_move og_loc) moves_list)))"
proof (cases "set_cell (board g) (midpoint og_loc loc) None")
  case (Inl e)
  then show ?thesis
    by (simp add: check_additional_capture.simps [of g og_loc loc piece_used] bind_def)
next
  case (Inr b')
  define tg where "tg = (make_copy_game g)\<lparr>board := b'\<rparr>"
  define r where "r = (\<lambda>d. check_dir d tg (is_white_move g) loc piece_used True)"
  have pm: "(\<lambda>possible_move. possible_move\<lparr>move := str (fst og_loc) @ str (snd og_loc) @ move possible_move\<rparr>)
            = prefix_move og_loc"
    by (simp add: prefix_move_def fun_eq_iff)
  have lhs: "check_additional_capture g og_loc loc piece_used =
     (case
        (if is_white_move g \<and> \<not> is_king piece_used then
           (case r TL of Inl e \<Rightarrow> Inl e | Inr m1 \<Rightarrow>
           (case r TR of Inl e \<Rightarrow> Inl e | Inr m2 \<Rightarrow> Inr (m1 @ m2)))
         else if \<not> is_white_move g \<and> \<not> is_king piece_used then
           (case r BL of Inl e \<Rightarrow> Inl e | Inr m1 \<Rightarrow>
           (case r BR of Inl e \<Rightarrow> Inl e | Inr m2 \<Rightarrow> Inr (m1 @ m2)))
         else
           (case r TL of Inl e \<Rightarrow> Inl e | Inr m1 \<Rightarrow>
           (case r TR of Inl e \<Rightarrow> Inl e | Inr m2 \<Rightarrow>
           (case r BL of Inl e \<Rightarrow> Inl e | Inr m3 \<Rightarrow>
           (case r BR of Inl e \<Rightarrow> Inl e | Inr m4 \<Rightarrow> Inr (m1 @ m2 @ m3 @ m4))))))
      of Inl e \<Rightarrow> Inl e | Inr moves_list \<Rightarrow> Inr (map (prefix_move og_loc) moves_list))"
    unfolding r_def tg_def
    by (subst check_additional_capture.simps) (simp only: board_make_copy_game Inr sum.case Let_def pm)
  have rhs: "bind (set_cell (board g) (midpoint og_loc loc) None) (\<lambda>b'.
     bind (probes (chain_dirs (is_white_move g) piece_used)
             ((make_copy_game g)\<lparr>board := b'\<rparr>) (is_white_move g) loc piece_used True)
       (\<lambda>moves_list. Inr (map (prefix_move og_loc) moves_list)))
     = (case (if is_king piece_used then bind (r TL) (\<lambda>m1. bind (bind (r TR) (\<lambda>m1. bind (bind (r BL) (\<lambda>m1. bind (bind (r BR) (\<lambda>m1. Inr (m1 @ []))) (\<lambda>rest. Inr (m1 @ rest)))) (\<lambda>rest. Inr (m1 @ rest)))) (\<lambda>rest. Inr (m1 @ rest)))
              else if is_white_move g then bind (r TL) (\<lambda>m1. bind (bind (r TR) (\<lambda>m1. Inr (m1 @ []))) (\<lambda>rest. Inr (m1 @ rest)))
              else bind (r BL) (\<lambda>m1. bind (bind (r BR) (\<lambda>m1. Inr (m1 @ []))) (\<lambda>rest. Inr (m1 @ rest))))
        of Inl e \<Rightarrow> Inl e | Inr moves_list \<Rightarrow> Inr (map (prefix_move og_loc) moves_list))"
    unfolding r_def tg_def
    by (simp add: Inr chain_dirs_def bind_def)
  show ?thesis
    unfolding lhs rhs
    by (cases "r TL"; cases "r TR"; cases "r BL"; cases "r BR") (simp_all add: bind_def)
qed

lemma check_dir_unfold:
  "check_dir d g white loc piece_used double =
     (if edge_ok d loc then
        (case cell (board g) (step d loc) of
           Inl e \<Rightarrow> Inl e
         | Inr None \<Rightarrow>
             Inr (if double then []
                  else [\<lparr>move = hop_str loc (step d loc), piece_captured = False\<rparr>])
         | Inr (Some q) \<Rightarrow>
             if is_white q \<noteq> white \<and> jump_ok d loc then
               (case cell (board g) (jump d loc) of
                  Inl e \<Rightarrow> Inl e
                | Inr (Some q') \<Rightarrow> Inr []
                | Inr None \<Rightarrow>
                    bind (probes (chain_dirs (is_white_move g) piece_used)
                            (capture_game g (step d loc)) (is_white_move g)
                            (jump d loc) piece_used True)
                      (\<lambda>moves_list.
                         Inr (\<lparr>move = hop_str loc (jump d loc), piece_captured = True\<rparr>
                              # map (prefix_move loc) moves_list)))
             else Inr [])
      else Inr [])"
proof -
  have chain: "check_additional_capture g loc (jump d loc) piece_used =
      bind (probes (chain_dirs (is_white_move g) piece_used)
              (capture_game g (step d loc)) (is_white_move g) (jump d loc) piece_used True)
        (\<lambda>moves_list. Inr (map (prefix_move loc) moves_list))"
    if "edge_ok d loc" "jump_ok d loc" "cell (board g) (step d loc) = Inr (Some q)" for q
  proof -
    from that(3) have "set_cell (board g) (step d loc) None = Inr (put (board g) (step d loc) None)"
      by (auto simp: cell_def set_cell_def split: if_splits)
    then show ?thesis
      using that(1,2)
      by (simp add: check_additional_capture_unfold midpoint_jump bind_def capture_game_def)
  qed
  note unf = check_dir.simps
  show ?thesis
  proof (cases "edge_ok d loc")
    case False
    then show ?thesis by (simp add: unf)
  next
    case edge: True
    show ?thesis
    proof (cases "cell (board g) (step d loc)")
      case (Inl e)
      with edge show ?thesis by (cases white) (simp_all add: unf)
    next
      case (Inr v)
      show ?thesis
      proof (cases v)
        case None
        with edge Inr show ?thesis by (cases white) (simp_all add: unf)
      next
        case (Some q)
        show ?thesis
        proof (cases "is_white q \<noteq> white \<and> jump_ok d loc")
          case False
          with edge Inr Some show ?thesis by (cases white) (auto simp add: unf)
        next
          case enemy: True
          show ?thesis
          proof (cases "cell (board g) (jump d loc)")
            case (Inl e)
            with edge Inr Some enemy show ?thesis by (cases white) (simp_all add: unf)
          next
            case land: (Inr v2)
            show ?thesis
            proof (cases v2)
              case None
              have c: "check_additional_capture g loc (jump d loc) piece_used =
                 bind (probes (chain_dirs (is_white_move g) piece_used)
                   (capture_game g (step d loc)) (is_white_move g) (jump d loc) piece_used True)
                 (\<lambda>moves_list. Inr (map (prefix_move loc) moves_list))"
                using chain [of q] edge enemy Inr Some by simp
              from edge Inr Some enemy land None show ?thesis
                by (cases white) (simp_all add: unf c bind_def split: sum.splits)
            next
              case (Some q')
              with edge Inr \<open>v = Some q\<close> enemy land show ?thesis
                by (cases white) (simp_all add: unf)
            qed
          qed
        qed
      qed
    qed
  qed
qed


subsection \<open>Well-formed boards: the probes never raise\<close>

text \<open>
  Every board the program builds is 8 by 8 (\<open>DEFAULT_BOARD_SETUP\<close> and its copies).
  On such a board the probes of a square on the board stay in range.  The recursion
  of the capture chain is on the number of pieces: each continuation runs on a copy
  with one piece less.
\<close>

definition wf_board :: "'a grid \<Rightarrow> bool" where
  "wf_board b = (length b = 8 \<and> list_all (\<lambda>row. length row = 8) b)"

definition on_board :: "nat \<times> nat \<Rightarrow> bool" where
  "on_board loc = (fst loc < 8 \<and> snd loc < 8)"

lemma cell_wf: "wf_board b \<Longrightarrow> on_board loc \<Longrightarrow> cell b loc = Inr (b ! fst loc ! snd loc)"
  by (auto simp: wf_board_def on_board_def cell_def list_all_length)

lemma cell_Inr_wf: "wf_board b \<Longrightarrow> cell b loc = Inr v \<Longrightarrow> on_board loc"
  by (auto simp: wf_board_def on_board_def cell_def list_all_length split: if_splits)

lemma wf_board_put: "wf_board b \<Longrightarrow> wf_board (put b loc v)"
  by (cases "fst loc < length b") (auto simp: wf_board_def put_def list_all_length nth_list_update)

lemma board_capture_game [simp]: "board (capture_game g sq) = put (board g) sq None"
  by (simp add: capture_game_def)

lemma is_white_move_capture_game [simp]: "is_white_move (capture_game g sq) = is_white_move g"
  by (simp add: capture_game_def)

lemma on_board_step: "on_board loc \<Longrightarrow> edge_ok d loc \<Longrightarrow> on_board (step d loc)"
  by (cases d) (auto simp: on_board_def)

lemma on_board_jump: "on_board loc \<Longrightarrow> jump_ok d loc \<Longrightarrow> on_board (jump d loc)"
  by (cases d) (auto simp: on_board_def)

lemma check_dir_chain_induct [case_names probe]:
  assumes "\<And>d g white loc piece_used double.
     (\<And>q d'. edge_ok d loc \<Longrightarrow> cell (board g) (step d loc) = Inr (Some q) \<Longrightarrow>
         is_white q \<noteq> white \<Longrightarrow> jump_ok d loc \<Longrightarrow> cell (board g) (jump d loc) = Inr None \<Longrightarrow>
         P d' (capture_game g (step d loc)) (is_white_move g) (jump d loc) piece_used True)
     \<Longrightarrow> P d g white loc piece_used double"
  shows "P d g white loc piece_used double"
proof (induction "count_pieces (board g)" arbitrary: d g white loc double rule: less_induct)
  case less
  show ?case
  proof (rule assms)
    fix q d'
    assume "cell (board g) (step d loc) = Inr (Some q)"
    then have "count_pieces (board (capture_game g (step d loc))) < count_pieces (board g)"
      by (simp add: count_pieces_put_None)
    then show "P d' (capture_game g (step d loc)) (is_white_move g) (jump d loc) piece_used True"
      by (rule less)
  qed
qed

lemma probes_total:
  "(\<And>d. d \<in> set ds \<Longrightarrow> \<exists>ms. check_dir d g white loc piece_used double = Inr ms)
   \<Longrightarrow> \<exists>ms. probes ds g white loc piece_used double = Inr ms"
proof (induction ds)
  case Nil
  then show ?case by simp
next
  case (Cons d ds)
  from Cons.prems [of d] obtain m1 where "check_dir d g white loc piece_used double = Inr m1"
    by auto
  moreover from Cons obtain rest where "probes ds g white loc piece_used double = Inr rest"
    by auto
  ultimately show ?case by (simp add: bind_def)
qed

lemma probes_member:
  "probes ds g white loc piece_used double = Inr ms \<Longrightarrow>
   m \<in> set ms \<longleftrightarrow> (\<exists>d\<in>set ds. \<exists>ms'. check_dir d g white loc piece_used double = Inr ms' \<and> m \<in> set ms')"
proof (induction ds arbitrary: ms)
  case Nil
  then show ?case by simp
next
  case (Cons d ds)
  then show ?case
    by (auto simp: bind_def split: sum.splits)
qed

lemma probes_Inr_each:
  "probes ds g white loc piece_used double = Inr ms \<Longrightarrow> d \<in> set ds \<Longrightarrow>
   \<exists>ms'. check_dir d g white loc piece_used double = Inr ms'"
  by (induction ds arbitrary: ms) (auto simp: bind_def split: sum.splits)

lemma check_dir_total:
  "wf_board (board g) \<Longrightarrow> on_board loc \<Longrightarrow>
   \<exists>ms. check_dir d g white loc piece_used double = Inr ms"
proof (induction d g white loc piece_used double rule: check_dir_chain_induct)
  case (probe d g white loc piece_used double)
  show ?case
  proof (cases "edge_ok d loc")
    case False
    then show ?thesis by (simp add: check_dir_unfold)
  next
    case edge: True
    have c1: "cell (board g) (step d loc) = Inr (board g ! fst (step d loc) ! snd (step d loc))"
      using probe.prems edge by (simp add: cell_wf on_board_step)
    show ?thesis
    proof (cases "board g ! fst (step d loc) ! snd (step d loc)")
      case None
      with edge c1 show ?thesis by (simp add: check_dir_unfold)
    next
      case (Some q)
      show ?thesis
      proof (cases "is_white q \<noteq> white \<and> jump_ok d loc")
        case False
        with edge c1 Some show ?thesis by (auto simp add: check_dir_unfold)
      next
        case enemy: True
        have on2: "on_board (jump d loc)"
          using probe.prems enemy by (simp add: on_board_jump)
        have c2: "cell (board g) (jump d loc) = Inr (board g ! fst (jump d loc) ! snd (jump d loc))"
          using probe.prems on2 by (simp add: cell_wf)
        show ?thesis
        proof (cases "board g ! fst (jump d loc) ! snd (jump d loc)")
          case land: None
          have "\<exists>ms. check_dir d' (capture_game g (step d loc)) (is_white_move g) (jump d loc)
                  piece_used True = Inr ms" for d'
            using probe.IH [of q d'] edge c1 Some enemy c2 land probe.prems on2
            by (simp add: wf_board_put)
          then obtain ml where "probes (chain_dirs (is_white_move g) piece_used)
                (capture_game g (step d loc)) (is_white_move g) (jump d loc) piece_used True = Inr ml"
            using probes_total by blast
          with edge c1 Some enemy c2 land show ?thesis
            by (simp add: check_dir_unfold bind_def)
        next
          case (Some q')
          with edge c1 \<open>_ = Some q\<close> enemy c2 show ?thesis
            by (simp add: check_dir_unfold)
        qed
      qed
    qed
  qed
qed

subsection \<open>The list of pieces and the aggregation loop\<close>

definition colour_ok :: "string \<Rightarrow> Piece \<Rightarrow> bool" where
  "colour_ok colour p =
     (colour = ''any'' \<or> (colour = ''white'' \<and> is_white p) \<or> (colour = ''black'' \<and> \<not> is_white p))"

definition pieces_on :: "board_t \<Rightarrow> string \<Rightarrow> (nat \<times> nat) list \<Rightarrow> ((nat \<times> nat) \<times> Piece) list" where
  "pieces_on b colour sqs =
     concat (map (\<lambda>loc. case b ! fst loc ! snd loc of
                           None \<Rightarrow> []
                         | Some p \<Rightarrow> if colour_ok colour p then [(loc, p)] else []) sqs)"

lemma pieces_loop_wf:
  "wf_board b \<Longrightarrow> \<forall>loc\<in>set sqs. on_board loc \<Longrightarrow>
   pieces_loop b colour sqs acc = Inr (acc @ pieces_on b colour sqs)"
proof (induction sqs arbitrary: acc)
  case Nil
  then show ?case by (simp add: pieces_on_def)
next
  case (Cons loc sqs)
  then have c: "cell b loc = Inr (b ! fst loc ! snd loc)"
    by (simp add: cell_wf)
  have tl: "pieces_on b colour (loc # sqs) =
      (case b ! fst loc ! snd loc of None \<Rightarrow> [] | Some p \<Rightarrow> if colour_ok colour p then [(loc, p)] else [])
      @ pieces_on b colour sqs"
    by (simp add: pieces_on_def)
  show ?case
  proof (cases "b ! fst loc ! snd loc")
    case None
    with Cons c tl show ?thesis by simp
  next
    case (Some p)
    with Cons c tl show ?thesis by (auto simp: colour_ok_def)
  qed
qed

lemma set_all_squares: "set all_squares = {loc. on_board loc}"
  by (auto simp: all_squares_def on_board_def)

lemma return_all_pieces_location_wf:
  "wf_board (board g) \<Longrightarrow>
   return_all_pieces_location g colour = Inr (pieces_on (board g) colour all_squares)"
  by (simp add: return_all_pieces_location_def pieces_loop_wf set_all_squares)

lemma pieces_on_member:
  "(loc, p) \<in> set (pieces_on b colour sqs) \<longleftrightarrow>
   loc \<in> set sqs \<and> b ! fst loc ! snd loc = Some p \<and> colour_ok colour p"
  by (auto simp: pieces_on_def split: option.splits if_splits)

lemma extend_Inr [simp]: "extend_with (Inr xs) (Inr ys) = Inr (xs @ ys)"
  by (simp add: extend_with_def)

lemma extend_Inl [simp]: "extend_with (Inl e) r = Inl e"
  by (simp add: extend_with_def)

lemma piece_probes_eq:
  "piece_probes g piece_info acc =
   extend_with acc (probes (start_dirs (is_white_move g) (snd piece_info)) g (is_white_move g)
                 (fst piece_info) (snd piece_info) False)"
proof -
  define r where "r = (\<lambda>d. check_dir d g (is_white_move g) (fst piece_info) (snd piece_info) False)"
  have lhs: "piece_probes g piece_info acc =
     (if is_white_move g then
        (let nm = extend_with (extend_with acc (r TL)) (r TR)
         in if is_king (snd piece_info) then extend_with (extend_with nm (r BL)) (r BR) else nm)
      else
        (let nm = extend_with (extend_with acc (r BL)) (r BR)
         in if is_king (snd piece_info) then extend_with (extend_with nm (r TL)) (r TR) else nm))"
    unfolding r_def piece_probes_def check_tl_def check_tr_def check_bl_def check_br_def ..
  have rhs: "probes ds g (is_white_move g) (fst piece_info) (snd piece_info) False
     = foldr (\<lambda>d rest. bind (r d) (\<lambda>m1. bind rest (\<lambda>rest. Inr (m1 @ rest)))) ds (Inr [])" for ds
    unfolding r_def by (induction ds) simp_all
  show ?thesis
    unfolding lhs rhs start_dirs_def
    by (cases acc; cases "r TL"; cases "r TR"; cases "r BL"; cases "r BR")
       (simp_all add: extend_with_def bind_def Let_def)
qed


definition piece_moves :: "CheckersGame \<Rightarrow> (nat \<times> nat) \<times> Piece \<Rightarrow> error + Move list" where
  "piece_moves g piece_info =
     probes (start_dirs (is_white_move g) (snd piece_info)) g (is_white_move g)
       (fst piece_info) (snd piece_info) False"

definition the_moves :: "error + Move list \<Rightarrow> Move list" where
  "the_moves r = (case r of Inl e \<Rightarrow> [] | Inr ms \<Rightarrow> ms)"

lemma piece_moves_total:
  "wf_board (board g) \<Longrightarrow> on_board (fst piece_info) \<Longrightarrow> \<exists>ms. piece_moves g piece_info = Inr ms"
  unfolding piece_moves_def by (rule probes_total) (rule check_dir_total)

lemma fold_piece_probes:
  "\<forall>pi\<in>set ps. \<exists>ms. piece_moves g pi = Inr ms \<Longrightarrow>
   fold (piece_probes g) ps (Inr acc)
     = Inr (acc @ concat (map (\<lambda>pi. the_moves (piece_moves g pi)) ps))"
proof (induction ps arbitrary: acc)
  case Nil
  then show ?case by simp
next
  case (Cons pi ps)
  then obtain ms where ms: "piece_moves g pi = Inr ms" by auto
  then have "piece_probes g pi (Inr acc) = Inr (acc @ ms)"
    by (simp add: piece_probes_eq piece_moves_def [symmetric])
  with Cons ms show ?case
    by (simp add: the_moves_def)
qed

definition side_colour :: "CheckersGame \<Rightarrow> string" where
  "side_colour g = (if is_white_move g then ''white'' else ''black'')"

definition all_probes :: "CheckersGame \<Rightarrow> Move list" where
  "all_probes g =
     concat (map (\<lambda>pi. the_moves (piece_moves g pi))
                 (pieces_on (board g) (side_colour g) all_squares))"

lemma find_legal_moves_wf:
  assumes "wf_board (board g)"
  shows "find_legal_moves g = Inr (captures_first (all_probes g))"
proof -
  have "\<forall>pi\<in>set (pieces_on (board g) (side_colour g) all_squares). \<exists>ms. piece_moves g pi = Inr ms"
  proof
    fix pi assume "pi \<in> set (pieces_on (board g) (side_colour g) all_squares)"
    then have "on_board (fst pi)"
      using pieces_on_member [of "fst pi" "snd pi"] by (simp add: set_all_squares)
    with assms show "\<exists>ms. piece_moves g pi = Inr ms"
      by (rule piece_moves_total)
  qed
  then have "fold (piece_probes g) (pieces_on (board g) (side_colour g) all_squares) (Inr [])
     = Inr (all_probes g)"
    by (simp add: fold_piece_probes all_probes_def)
  with assms show ?thesis
    by (simp add: find_legal_moves_def return_all_pieces_location_wf side_colour_def [symmetric])
qed

lemma captures_first_all_or_none:
  "(\<exists>m\<in>set (captures_first ms). piece_captured m) \<Longrightarrow> \<forall>m\<in>set (captures_first ms). piece_captured m"
  by (auto simp: captures_first_def Let_def filter_empty_conv split: if_splits)

subsection \<open>What the move generator reads of the game\<close>

lemma capture_game_cong:
  "board g = board g' \<Longrightarrow> is_white_move g = is_white_move g' \<Longrightarrow>
   capture_game g sq = capture_game g' sq"
  by (simp add: capture_game_def make_copy_game_def)

lemma check_dir_cong:
  "board g = board g' \<Longrightarrow> is_white_move g = is_white_move g' \<Longrightarrow>
   check_dir d g white loc piece_used double = check_dir d g' white loc piece_used double"
proof -
  assume a: "board g = board g'" "is_white_move g = is_white_move g'"
  show ?thesis
    apply (subst check_dir_unfold [of d g])
    apply (subst check_dir_unfold [of d g'])
    apply (simp only: a capture_game_cong [OF a])
    done
qed

lemma probes_cong:
  "board g = board g' \<Longrightarrow> is_white_move g = is_white_move g' \<Longrightarrow>
   probes ds g white loc piece_used double = probes ds g' white loc piece_used double"
  by (induction ds) (simp_all add: check_dir_cong [of g g'])

lemma piece_probes_cong:
  "board g = board g' \<Longrightarrow> is_white_move g = is_white_move g' \<Longrightarrow>
   piece_probes g = piece_probes g'"
  by (simp add: fun_eq_iff piece_probes_eq probes_cong [of g g'])

lemma find_legal_moves_cong:
  "board g = board g' \<Longrightarrow> is_white_move g = is_white_move g' \<Longrightarrow>
   find_legal_moves g = find_legal_moves g'"
proof -
  assume a: "board g = board g'" "is_white_move g = is_white_move g'"
  show ?thesis
    unfolding find_legal_moves_def return_all_pieces_location_def piece_probes_cong [OF a] a ..
qed

subsection \<open>The steps of make\_move\<close>

lemma bind_Inr_iff: "bind x f = Inr y \<longleftrightarrow> (\<exists>v. x = Inr v \<and> f v = Inr y)"
  by (cases x) (simp_all add: bind_def)

lemma update_pieces_Inr:
  "update_pieces g = Inr g' \<Longrightarrow> \<exists>b. g' = g\<lparr>board := b\<rparr>"
  by (auto simp: update_pieces_def bind_Inr_iff)

lemma terminal_check_Inr:
  assumes "terminal_check g = Inr g'"
  shows "\<exists>legal. find_legal_moves g = Inr legal \<and>
     g' = (if legal = [] \<and> is_white_move g \<and> main_game g
             then g\<lparr>white_win := False, gamestate := ''END''\<rparr>
           else if legal = [] \<and> \<not> is_white_move g \<and> main_game g
             then g\<lparr>white_win := True, gamestate := ''END''\<rparr>
           else if moves_since_cap g \<ge> 50 \<and> main_game g
             then g\<lparr>white_win := True, is_draw := True, gamestate := ''END''\<rparr>
           else g)"
proof -
  from assms obtain legal where l: "find_legal_moves g = Inr legal"
    and r: "(if legal = [] \<and> is_white_move g \<and> main_game g
         then Inr (g\<lparr>white_win := False, gamestate := ''END''\<rparr>)
       else if legal = [] \<and> \<not> is_white_move g \<and> main_game g
         then Inr (g\<lparr>white_win := True, gamestate := ''END''\<rparr>)
       else if moves_since_cap g \<ge> 50 \<and> main_game g
         then Inr (g\<lparr>white_win := True, is_draw := True, gamestate := ''END''\<rparr>)
       else Inr g) = (Inr g' :: error + CheckersGame)"
    unfolding terminal_check_def bind_Inr_iff by blast
  let ?X = "(if legal = [] \<and> is_white_move g \<and> main_game g
             then g\<lparr>white_win := False, gamestate := ''END''\<rparr>
           else if legal = [] \<and> \<not> is_white_move g \<and> main_game g
             then g\<lparr>white_win := True, gamestate := ''END''\<rparr>
           else if moves_since_cap g \<ge> 50 \<and> main_game g
             then g\<lparr>white_win := True, is_draw := True, gamestate := ''END''\<rparr>
           else g)"
  from r have "Inr ?X = (Inr g' :: error + CheckersGame)"
    by (simp only: if_distrib [of Inr])
  then have "?X = g'"
    by (simp only: sum.inject)
  then have "g' = ?X"
    by (rule sym)
  with l show ?thesis by blast
qed



text \<open>
  \<open>make_move\<close> in three steps: the squares are rewritten and the counter is set to -1
  by a capture; the side to move flips and the pieces are crowned; the counter goes
  up by one and the terminal check runs.
\<close>

lemma make_move_Inr:
  assumes "make_move g m = Inr g'"
  shows "\<exists>b. terminal_check
           (g\<lparr>board := b, is_white_move := \<not> is_white_move g,
              moves_since_cap := (if piece_captured m then 0 else moves_since_cap g + 1)\<rparr>) = Inr g'"
proof -
  let ?first = "(if \<not> piece_captured m
             then bind (relocate (board g) (move m) 0) (\<lambda>b. Inr (g\<lparr>board := b\<rparr>))
           else bind (capture_hops (board g) (move m) [0 ..< length (move m) div 2 - 1])
                  (\<lambda>b. Inr (g\<lparr>moves_since_cap := - 1, board := b\<rparr>)))"
  from assms have "bind ?first
       (\<lambda>g1. bind (update_pieces (g1\<lparr>is_white_move := \<not> is_white_move g1\<rparr>))
       (\<lambda>g2. terminal_check (g2\<lparr>moves_since_cap := moves_since_cap g2 + 1\<rparr>))) = Inr g'"
    by (simp only: make_move_def)
  then obtain g1 where s1: "?first = Inr g1"
    and s23: "bind (update_pieces (g1\<lparr>is_white_move := \<not> is_white_move g1\<rparr>))
       (\<lambda>g2. terminal_check (g2\<lparr>moves_since_cap := moves_since_cap g2 + 1\<rparr>)) = Inr g'"
    by (subst (asm) bind_Inr_iff) blast
  from s23 obtain g2 where s2: "update_pieces (g1\<lparr>is_white_move := \<not> is_white_move g1\<rparr>) = Inr g2"
    and s3: "terminal_check (g2\<lparr>moves_since_cap := moves_since_cap g2 + 1\<rparr>) = Inr g'"
    by (subst (asm) bind_Inr_iff) blast
  from update_pieces_Inr [OF s2] obtain b2
    where g2: "g2 = g1\<lparr>is_white_move := \<not> is_white_move g1, board := b2\<rparr>"
    by auto
  show ?thesis
  proof (cases "piece_captured m")
    case True
    with s1 obtain b1 where "g1 = g\<lparr>moves_since_cap := - 1, board := b1\<rparr>"
      by (auto simp: bind_Inr_iff)
    with g2 True have "g2\<lparr>moves_since_cap := moves_since_cap g2 + 1\<rparr> =
        g\<lparr>board := b2, is_white_move := \<not> is_white_move g,
          moves_since_cap := (if piece_captured m then 0 else moves_since_cap g + 1)\<rparr>"
      by simp
    with s3 show ?thesis by auto
  next
    case False
    with s1 obtain b1 where "g1 = g\<lparr>board := b1\<rparr>"
      by (auto simp: bind_Inr_iff)
    with g2 False have "g2\<lparr>moves_since_cap := moves_since_cap g2 + 1\<rparr> =
        g\<lparr>board := b2, is_white_move := \<not> is_white_move g,
          moves_since_cap := (if piece_captured m then 0 else moves_since_cap g + 1)\<rparr>"
      by simp
    with s3 show ?thesis by auto
  qed
qed

section \<open>Positions used as concrete inputs\<close>

definition wm :: "Piece option" where "wm = Some (new_Piece True)"
definition bm :: "Piece option" where "bm = Some (new_Piece False)"
definition wk :: "Piece option" where "wk = Some ((new_Piece True)\<lparr>is_king := True\<rparr>)"

definition empty_row :: "Piece option list" where
  "empty_row = [None, None, None, None, None, None, None, None]"

text \<open>
  White to move: the man on (2, 2) can jump the black man on (3, 3); the man on
  (0, 4) has two simple moves and no capture.
\<close>

definition board_a :: board_t where
  "board_a =
    [[None, None, None, None, wm, None, None, None],
     empty_row,
     [None, None, wm, None, None, None, None, None],
     [None, None, None, bm, None, None, None, None],
     empty_row, empty_row, empty_row, empty_row]"

definition game_a :: CheckersGame where
  "game_a = new_CheckersGame True board_a ''GAME''"

section \<open>The claims\<close>

text \<open>
  C5.  Mandatory capture: on every game state (an 8 by 8 board), \<open>find_legal_moves\<close>
  returns a list, and if that list contains a move with \<open>piece_captured\<close> true then
  every move of the list has \<open>piece_captured\<close> true.
\<close>

theorem find_legal_moves_mandatory_capture:
  assumes "wf_board (board g)"
  shows "\<exists>ms. find_legal_moves g = Inr ms \<and>
           ((\<exists>m\<in>set ms. piece_captured m) \<longrightarrow> (\<forall>m\<in>set ms. piece_captured m))"
  using captures_first_all_or_none [of "all_probes g"]
  by (simp add: find_legal_moves_wf [OF assms])

theorem find_legal_moves_mandatory_capture_witness:
  "wf_board (board game_a) \<and>
   find_legal_moves game_a = Inr [\<lparr>move = ''2244'', piece_captured = True\<rparr>] \<and>
   list_all piece_captured [\<lparr>move = ''2244'', piece_captured = True\<rparr>]"
proof -
  have wf: "wf_board (board game_a)"
    by code_simp
  have e: "find_legal_moves game_a = Inr [\<lparr>move = ''2244'', piece_captured = True\<rparr>]"
    by code_simp
  from find_legal_moves_mandatory_capture [OF wf] e wf show ?thesis
    by simp
qed

text \<open>
  C2 as stated fails.  In \<open>game_a\<close> the legal moves are the one capture of the man on
  (2, 2), and \<open>find_legal_moves_one_piece\<close> still returns the two simple moves of the
  man on (0, 4), not the empty list.
\<close>

theorem find_legal_moves_one_piece_counterexample:
  "cell (board game_a) (0, 4) = Inr (Some (new_Piece True)) \<and>
   is_white_move game_a \<and>
   find_legal_moves game_a = Inr [\<lparr>move = ''2244'', piece_captured = True\<rparr>] \<and>
   find_legal_moves_one_piece game_a ((0, 4), new_Piece True)
     = Inr [\<lparr>move = ''0413'', piece_captured = False\<rparr>,
            \<lparr>move = ''0415'', piece_captured = False\<rparr>]"
  by code_simp

text \<open>
  C2, amended.  \<open>find_legal_moves_one_piece\<close> filters the moves of the piece against
  the probes of that piece alone: it returns the captures of the piece when the piece
  has one, and otherwise all the simple moves of the piece, whatever the other pieces
  can capture.
\<close>

theorem find_legal_moves_one_piece_own_probes:
  assumes "piece_moves g piece_info = Inr ps"
  shows "find_legal_moves_one_piece g piece_info
           = Inr (if \<exists>m\<in>set ps. piece_captured m then filter piece_captured ps else ps)"
proof -
  have "piece_probes g piece_info (Inr []) = Inr ps"
    using assms by (simp add: piece_probes_eq piece_moves_def)
  then show ?thesis
    by (auto simp: find_legal_moves_one_piece_def captures_first_def Let_def filter_empty_conv)
qed

theorem find_legal_moves_one_piece_own_probes_witness:
  "piece_moves game_a ((0, 4), new_Piece True)
     = Inr [\<lparr>move = ''0413'', piece_captured = False\<rparr>, \<lparr>move = ''0415'', piece_captured = False\<rparr>] \<and>
   find_legal_moves_one_piece game_a ((0, 4), new_Piece True)
     = Inr [\<lparr>move = ''0413'', piece_captured = False\<rparr>, \<lparr>move = ''0415'', piece_captured = False\<rparr>]"
proof -
  have h: "piece_moves game_a ((0, 4), new_Piece True)
     = Inr [\<lparr>move = ''0413'', piece_captured = False\<rparr>, \<lparr>move = ''0415'', piece_captured = False\<rparr>]"
    by code_simp
  from find_legal_moves_one_piece_own_probes [OF h] h show ?thesis
    by simp
qed

text \<open>
  C4.  When \<open>make_move\<close> returns, the side to move has flipped.  On a root game
  (\<open>main_game\<close> true): if the new side to move has no legal move the game ends and the
  other side has won; otherwise, with a counter of 50 or more the game ends in a draw;
  otherwise (49 or less) the outcome fields are as before.  On a game that is not the
  root, as \<open>make_copy_game\<close> builds them, the outcome fields never change.
\<close>

theorem make_move_terminal_check:
  assumes "make_move g m = Inr g'"
  shows "\<exists>legal. find_legal_moves g' = Inr legal \<and>
     is_white_move g' = (\<not> is_white_move g) \<and> main_game g' = main_game g \<and>
     (main_game g \<and> legal = [] \<longrightarrow>
        gamestate g' = ''END'' \<and> white_win g' = (\<not> is_white_move g') \<and> is_draw g' = is_draw g) \<and>
     (main_game g \<and> legal \<noteq> [] \<and> moves_since_cap g' \<ge> 50 \<longrightarrow>
        gamestate g' = ''END'' \<and> is_draw g' \<and> white_win g') \<and>
     (main_game g \<and> legal \<noteq> [] \<and> moves_since_cap g' < 50 \<longrightarrow>
        gamestate g' = gamestate g \<and> white_win g' = white_win g \<and> is_draw g' = is_draw g) \<and>
     (\<not> main_game g \<longrightarrow>
        gamestate g' = gamestate g \<and> white_win g' = white_win g \<and> is_draw g' = is_draw g) \<and>
     \<not> main_game (make_copy_game g)"
proof -
  from make_move_Inr [OF assms] obtain b where
    t: "terminal_check
           (g\<lparr>board := b, is_white_move := \<not> is_white_move g,
              moves_since_cap := (if piece_captured m then 0 else moves_since_cap g + 1)\<rparr>) = Inr g'"
    by blast
  define h where "h = g\<lparr>board := b, is_white_move := \<not> is_white_move g,
              moves_since_cap := (if piece_captured m then 0 else moves_since_cap g + 1)\<rparr>"
  have hf: "is_white_move h = (\<not> is_white_move g)" "main_game h = main_game g"
    "gamestate h = gamestate g" "white_win h = white_win g" "is_draw h = is_draw g"
    by (simp_all add: h_def)
  from terminal_check_Inr [OF t [folded h_def]] obtain legal where
    l: "find_legal_moves h = Inr legal" and
    g': "g' = (if legal = [] \<and> is_white_move h \<and> main_game h
             then h\<lparr>white_win := False, gamestate := ''END''\<rparr>
           else if legal = [] \<and> \<not> is_white_move h \<and> main_game h
             then h\<lparr>white_win := True, gamestate := ''END''\<rparr>
           else if moves_since_cap h \<ge> 50 \<and> main_game h
             then h\<lparr>white_win := True, is_draw := True, gamestate := ''END''\<rparr>
           else h)"
    by blast
  have same: "board g' = board h" "is_white_move g' = is_white_move h"
    "main_game g' = main_game h" "moves_since_cap g' = moves_since_cap h"
    by (simp_all add: g')
  have l': "find_legal_moves g' = Inr legal"
    using find_legal_moves_cong [OF same(1,2)] l by simp
  have win: "gamestate g' = ''END'' \<and> white_win g' = (\<not> is_white_move g') \<and> is_draw g' = is_draw g"
    if "main_game g" "legal = []"
    using that hf by (cases "is_white_move h") (simp_all add: g')
  have draw: "gamestate g' = ''END'' \<and> is_draw g' \<and> white_win g'"
    if "main_game g" "legal \<noteq> []" "moves_since_cap g' \<ge> 50"
    using that hf same(4) by (simp add: g')
  have go_on: "gamestate g' = gamestate g \<and> white_win g' = white_win g \<and> is_draw g' = is_draw g"
    if "main_game g" "legal \<noteq> []" "moves_since_cap g' < 50"
    using that hf same(4) by (simp add: g')
  have copy: "gamestate g' = gamestate g \<and> white_win g' = white_win g \<and> is_draw g' = is_draw g"
    if "\<not> main_game g"
    using that hf by (simp add: g')
  have nr: "\<not> main_game (make_copy_game g)"
    by (simp add: make_copy_game_def new_CheckersGame_def)
  from l' same hf win draw go_on copy nr show ?thesis
    by (intro exI [of _ legal]) simp
qed

theorem make_move_terminal_check_witness:
  "\<exists>g'. make_move game_a \<lparr>move = ''2244'', piece_captured = True\<rparr> = Inr g' \<and>
     find_legal_moves g' = Inr [] \<and> main_game game_a \<and>
     gamestate g' = ''END'' \<and> white_win g' \<and> \<not> is_white_move g'"
proof -
  have "\<not> isl (make_move game_a \<lparr>move = ''2244'', piece_captured = True\<rparr>)"
    by code_simp
  then obtain g' where h: "make_move game_a \<lparr>move = ''2244'', piece_captured = True\<rparr> = Inr g'"
    by (cases "make_move game_a \<lparr>move = ''2244'', piece_captured = True\<rparr>") auto
  have e: "map_sum id (\<lambda>g. (find_legal_moves g))
            (make_move game_a \<lparr>move = ''2244'', piece_captured = True\<rparr>) = Inr (Inr [])"
    by code_simp
  have w: "is_white_move game_a" "main_game game_a"
    by code_simp+
  from e h have l: "find_legal_moves g' = Inr []"
    by simp
  from make_move_terminal_check [OF h] l w h show ?thesis
    by auto
qed

subsection \<open>Chained captures\<close>

text \<open>The digit string of a chain of squares: \<open>str(r0) + str(c0) + str(r1) + ...\<close>.\<close>

fun chain_str :: "(nat \<times> nat) list \<Rightarrow> string" where
  "chain_str [] = []"
| "chain_str (sq # rest) = str (fst sq) @ str (snd sq) @ chain_str rest"

lemma hop_str_chain: "hop_str a b = chain_str [a, b]"
  by (simp add: hop_str_def)

lemma move_prefix_move [simp]: "move (prefix_move og m) = chain_str [og] @ move m"
  by (simp add: prefix_move_def)

lemma piece_captured_prefix_move [simp]: "piece_captured (prefix_move og m) = piece_captured m"
  by (simp add: prefix_move_def)

lemma cell_put_other:
  "loc' \<noteq> sq \<Longrightarrow> cell (put b sq v) loc' = cell b loc'"
  by (cases "fst sq < length b"; cases "fst loc' = fst sq")
     (auto simp: cell_def put_def nth_list_update prod_eq_iff)

lemma cell_put_same:
  "cell b sq = Inr w \<Longrightarrow> cell (put b sq v) sq = Inr v"
  by (auto simp: cell_def put_def split: if_splits)

lemma jump_back:
  "edge_ok d1 loc \<Longrightarrow> jump_ok d1 loc \<Longrightarrow> edge_ok d2 (jump d1 loc) \<Longrightarrow> jump_ok d2 (jump d1 loc) \<Longrightarrow>
   step d2 (jump d1 loc) = step d1 loc \<Longrightarrow> jump d2 (jump d1 loc) = loc"
  by (cases d1; cases d2) (auto simp: prod_eq_iff)

text \<open>A capture that is possible is the head of what the probe returns.\<close>

lemma check_dir_capture:
  assumes "wf_board (board g)" "on_board loc"
    and "edge_ok d loc" "jump_ok d loc"
    and "cell (board g) (step d loc) = Inr (Some q)" "is_white q \<noteq> white"
    and "cell (board g) (jump d loc) = Inr None"
  shows "\<exists>ml. probes (chain_dirs (is_white_move g) piece_used) (capture_game g (step d loc))
                 (is_white_move g) (jump d loc) piece_used True = Inr ml \<and>
              check_dir d g white loc piece_used double
                = Inr (\<lparr>move = hop_str loc (jump d loc), piece_captured = True\<rparr>
                       # map (prefix_move loc) ml)"
proof -
  have "wf_board (board (capture_game g (step d loc)))"
    using assms(1) by (simp add: wf_board_put)
  moreover have "on_board (jump d loc)"
    using assms(2,4) by (rule on_board_jump)
  ultimately obtain ml where ml: "probes (chain_dirs (is_white_move g) piece_used)
      (capture_game g (step d loc)) (is_white_move g) (jump d loc) piece_used True = Inr ml"
    using probes_total [OF check_dir_total] by blast
  with assms(3-7) show ?thesis
    by (simp add: check_dir_unfold bind_def)
qed

lemma captures_first_member:
  "m \<in> set ms \<Longrightarrow> piece_captured m \<Longrightarrow> m \<in> set (captures_first ms)"
  by (auto simp: captures_first_def Let_def filter_empty_conv)

lemma all_probes_member:
  assumes "wf_board (board g)" "cell (board g) loc = Inr (Some p)" "is_white p = is_white_move g"
    and "piece_moves g (loc, p) = Inr ms" "m \<in> set ms"
  shows "m \<in> set (all_probes g)"
proof -
  have on: "on_board loc"
    using assms(1,2) by (rule cell_Inr_wf)
  with assms(1,2) have "board g ! fst loc ! snd loc = Some p"
    by (simp add: cell_wf)
  with on assms(3) have "(loc, p) \<in> set (pieces_on (board g) (side_colour g) all_squares)"
    by (simp add: pieces_on_member set_all_squares side_colour_def colour_ok_def)
  with assms(4,5) show ?thesis
    unfolding all_probes_def by (force simp: the_moves_def)
qed


lemma terminal_check_moves_since_cap:
  assumes "terminal_check h = Inr g'"
  shows "moves_since_cap g' = moves_since_cap h"
proof -
  from terminal_check_Inr [OF assms] obtain legal :: "Move list" where
    g': "g' = (if legal = [] \<and> is_white_move h \<and> main_game h
             then h\<lparr>white_win := False, gamestate := ''END''\<rparr>
           else if legal = [] \<and> \<not> is_white_move h \<and> main_game h
             then h\<lparr>white_win := True, gamestate := ''END''\<rparr>
           else if moves_since_cap h \<ge> 50 \<and> main_game h
             then h\<lparr>white_win := True, is_draw := True, gamestate := ''END''\<rparr>
           else h)"
    by blast
  show ?thesis
    by (simp add: g')
qed

lemma make_move_moves_since_cap:
  assumes "make_move g m = Inr g'"
  shows "moves_since_cap g' = (if piece_captured m then 0 else moves_since_cap g + 1)"
proof -
  from make_move_Inr [OF assms] obtain b where
    t: "terminal_check
           (g\<lparr>board := b, is_white_move := \<not> is_white_move g,
              moves_since_cap := (if piece_captured m then 0 else moves_since_cap g + 1)\<rparr>) = Inr g'"
    by blast
  from terminal_check_moves_since_cap [OF t] show ?thesis
    by simp
qed

text \<open>
  White to move: the man on (0, 0) can jump the black man on (1, 1), and from (2, 2)
  the black man on (3, 3); the black man on (1, 3) could only be jumped backward, from
  (2, 2) to (0, 4).  \<open>board_b_king\<close> is the same position with a king on (0, 0).
\<close>

definition board_b :: board_t where
  "board_b =
    [[wm, None, None, None, None, None, None, None],
     [None, bm, None, bm, None, None, None, None],
     empty_row,
     [None, None, None, bm, None, None, None, None],
     empty_row, empty_row, empty_row, empty_row]"

definition game_b :: CheckersGame where
  "game_b = new_CheckersGame True board_b ''GAME''"

definition board_b_king :: board_t where
  "board_b_king = put board_b (0, 0) wk"

definition game_b_king :: CheckersGame where
  "game_b_king = new_CheckersGame True board_b_king ''GAME''"

text \<open>
  C6.  Where a piece of the side to move can jump an enemy piece in a direction it
  may move in, and from the landing square can jump a second enemy piece,
  \<open>find_legal_moves\<close> returns a list that holds one \<open>Move\<close> whose digit string is the
  three squares (origin, first landing, second landing) with \<open>piece_captured\<close> true.
  And whenever \<open>make_move\<close> has applied a move with \<open>piece_captured\<close> true, single or
  chained, \<open>moves_since_cap\<close> is 0.
\<close>

theorem double_capture_is_one_move:
  assumes wf: "wf_board (board g)"
    and piece: "cell (board g) loc = Inr (Some p)" "is_white p = is_white_move g"
    and dirs: "d1 \<in> set (start_dirs (is_white_move g) p)" "d2 \<in> set (chain_dirs (is_white_move g) p)"
    and first: "edge_ok d1 loc" "jump_ok d1 loc"
      "cell (board g) (step d1 loc) = Inr (Some q1)" "is_white q1 \<noteq> is_white_move g"
      "cell (board g) (jump d1 loc) = Inr None"
    and second: "edge_ok d2 (jump d1 loc)" "jump_ok d2 (jump d1 loc)"
      "cell (board g) (step d2 (jump d1 loc)) = Inr (Some q2)" "is_white q2 \<noteq> is_white_move g"
      "cell (board g) (jump d2 (jump d1 loc)) = Inr None"
  shows "(\<exists>ms. find_legal_moves g = Inr ms \<and>
            \<lparr>move = chain_str [loc, jump d1 loc, jump d2 (jump d1 loc)], piece_captured = True\<rparr> \<in> set ms) \<and>
         (\<forall>h m h'. make_move h m = Inr h' \<and> piece_captured m \<longrightarrow> moves_since_cap h' = 0)"
proof
  let ?w = "is_white_move g"
  let ?l1 = "jump d1 loc"
  let ?l2 = "jump d2 ?l1"
  let ?tg = "capture_game g (step d1 loc)"
  let ?dbl = "\<lparr>move = chain_str [loc, ?l1, ?l2], piece_captured = True\<rparr>"
  have on: "on_board loc"
    using wf piece(1) by (rule cell_Inr_wf)
  have on1: "on_board ?l1"
    using on first(2) by (rule on_board_jump)
  have wft: "wf_board (board ?tg)"
    using wf by (simp add: wf_board_put)
  have ne: "step d2 ?l1 \<noteq> step d1 loc"
  proof
    assume "step d2 ?l1 = step d1 loc"
    then have "?l2 = loc"
      using first(1,2) second(1,2) by (simp add: jump_back)
    with second(5) piece(1) show False by simp
  qed
  have ne2: "?l2 \<noteq> step d1 loc"
    using second(5) first(3) by auto
  have t1: "cell (board ?tg) (step d2 ?l1) = Inr (Some q2)"
    using ne second(3) by (simp add: cell_put_other)
  have t2: "cell (board ?tg) ?l2 = Inr None"
    using ne2 second(5) by (simp add: cell_put_other)
  from check_dir_capture [OF wft on1 second(1,2) t1 second(4) [folded is_white_move_capture_game [of g "step d1 loc"]] t2,
      of p True]
  obtain ml2 where c2: "check_dir d2 ?tg ?w ?l1 p True
       = Inr (\<lparr>move = hop_str ?l1 ?l2, piece_captured = True\<rparr> # map (prefix_move ?l1) ml2)"
    by auto
  from check_dir_capture [OF wf on first(1,2,3,4,5), of p False]
  obtain ml1 where p1: "probes (chain_dirs ?w p) ?tg ?w ?l1 p True = Inr ml1"
    and c1: "check_dir d1 g ?w loc p False
       = Inr (\<lparr>move = hop_str loc ?l1, piece_captured = True\<rparr> # map (prefix_move loc) ml1)"
    by auto
  have "\<lparr>move = hop_str ?l1 ?l2, piece_captured = True\<rparr> \<in> set ml1"
    by (subst probes_member [OF p1]) (rule bexI [OF _ dirs(2)], simp add: c2)
  then have "prefix_move loc \<lparr>move = hop_str ?l1 ?l2, piece_captured = True\<rparr> \<in> set (map (prefix_move loc) ml1)"
    by simp
  moreover have "prefix_move loc \<lparr>move = hop_str ?l1 ?l2, piece_captured = True\<rparr> = ?dbl"
    by (simp add: prefix_move_def hop_str_def)
  ultimately have in1: "?dbl \<in> set (\<lparr>move = hop_str loc ?l1, piece_captured = True\<rparr> # map (prefix_move loc) ml1)"
    by simp
  obtain ms1 where pm: "piece_moves g (loc, p) = Inr ms1"
    using piece_moves_total [OF wf, of "(loc, p)"] on by auto
  have "?dbl \<in> set ms1"
    by (subst probes_member [OF pm [unfolded piece_moves_def fst_conv snd_conv]])
       (rule bexI [OF _ dirs(1)], use c1 in1 in simp)
  then have "?dbl \<in> set (all_probes g)"
    using all_probes_member [OF wf piece pm] by simp
  then have "?dbl \<in> set (captures_first (all_probes g))"
    by (rule captures_first_member) simp
  then show "\<exists>ms. find_legal_moves g = Inr ms \<and> ?dbl \<in> set ms"
    by (simp add: find_legal_moves_wf [OF wf])
next
  show "\<forall>h m h'. make_move h m = Inr h' \<and> piece_captured m \<longrightarrow> moves_since_cap h' = 0"
  proof (intro allI impI)
    fix h m h'
    assume "make_move h m = Inr h' \<and> piece_captured m"
    then show "moves_since_cap h' = 0"
      using make_move_moves_since_cap [of h m h'] by simp
  qed
qed

theorem double_capture_is_one_move_witness:
  "find_legal_moves game_b = Inr [\<lparr>move = ''0022'', piece_captured = True\<rparr>,
                                  \<lparr>move = ''002244'', piece_captured = True\<rparr>] \<and>
   (\<exists>h'. make_move game_b \<lparr>move = ''002244'', piece_captured = True\<rparr> = Inr h' \<and>
         moves_since_cap h' = 0)"
proof -
  have wf: "wf_board (board game_b)"
    by code_simp
  have piece: "cell (board game_b) (0, 0) = Inr (Some (new_Piece True))"
    "is_white (new_Piece True) = is_white_move game_b"
    by code_simp+
  have dirs: "TR \<in> set (start_dirs (is_white_move game_b) (new_Piece True))"
    "TR \<in> set (chain_dirs (is_white_move game_b) (new_Piece True))"
    by code_simp+
  have first: "edge_ok TR (0, 0)" "jump_ok TR (0, 0)"
    "cell (board game_b) (step TR (0, 0)) = Inr (Some (new_Piece False))"
    "is_white (new_Piece False) \<noteq> is_white_move game_b"
    "cell (board game_b) (jump TR (0, 0)) = Inr None"
    by code_simp+
  have second: "edge_ok TR (jump TR (0, 0))" "jump_ok TR (jump TR (0, 0))"
    "cell (board game_b) (step TR (jump TR (0, 0))) = Inr (Some (new_Piece False))"
    "cell (board game_b) (jump TR (jump TR (0, 0))) = Inr None"
    by code_simp+
  note th = double_capture_is_one_move [OF wf piece dirs first second(1,2,3) first(4) second(4)]
  have e: "find_legal_moves game_b = Inr [\<lparr>move = ''0022'', piece_captured = True\<rparr>,
                                  \<lparr>move = ''002244'', piece_captured = True\<rparr>]"
    by code_simp
  have "\<not> isl (make_move game_b \<lparr>move = ''002244'', piece_captured = True\<rparr>)"
    by code_simp
  then obtain h' where h: "make_move game_b \<lparr>move = ''002244'', piece_captured = True\<rparr> = Inr h'"
    by (cases "make_move game_b \<lparr>move = ''002244'', piece_captured = True\<rparr>") auto
  from th [THEN conjunct2, rule_format, of game_b "\<lparr>move = ''002244'', piece_captured = True\<rparr>" h'] h
  have "moves_since_cap h' = 0"
    by simp
  with e h show ?thesis
    by blast
qed

subsection \<open>The moves a probe returns, one by one\<close>

lemma check_dir_member_cases [consumes 2, case_names simple capture chain]:
  assumes "check_dir d g white loc piece_used double = Inr ms" "m \<in> set ms"
  obtains
    (simple) "edge_ok d loc" "cell (board g) (step d loc) = Inr None" "\<not> double"
      "m = \<lparr>move = hop_str loc (step d loc), piece_captured = False\<rparr>"
  | (capture) q where "edge_ok d loc" "jump_ok d loc"
      "cell (board g) (step d loc) = Inr (Some q)" "is_white q \<noteq> white"
      "cell (board g) (jump d loc) = Inr None"
      "m = \<lparr>move = hop_str loc (jump d loc), piece_captured = True\<rparr>"
  | (chain) q d' ms' m' where "edge_ok d loc" "jump_ok d loc"
      "cell (board g) (step d loc) = Inr (Some q)" "is_white q \<noteq> white"
      "cell (board g) (jump d loc) = Inr None"
      "d' \<in> set (chain_dirs (is_white_move g) piece_used)"
      "check_dir d' (capture_game g (step d loc)) (is_white_move g) (jump d loc) piece_used True
         = Inr ms'"
      "m' \<in> set ms'" "m = prefix_move loc m'"
proof (cases "edge_ok d loc")
  case False
  with assms show ?thesis by (simp add: check_dir_unfold)
next
  case edge: True
  show ?thesis
  proof (cases "cell (board g) (step d loc)")
    case (Inl e)
    with assms edge show ?thesis by (simp add: check_dir_unfold)
  next
    case (Inr v)
    show ?thesis
    proof (cases v)
      case None
      with assms edge Inr have "\<not> double \<and> m = \<lparr>move = hop_str loc (step d loc), piece_captured = False\<rparr>"
        by (cases double) (auto simp add: check_dir_unfold)
      with edge Inr None show ?thesis by (intro simple) simp_all
    next
      case (Some q)
      show ?thesis
      proof (cases "is_white q \<noteq> white \<and> jump_ok d loc")
        case False
        with assms edge Inr Some show ?thesis by (auto simp add: check_dir_unfold)
      next
        case enemy: True
        show ?thesis
        proof (cases "cell (board g) (jump d loc)")
          case (Inl e)
          with assms edge Inr Some enemy show ?thesis by (simp add: check_dir_unfold)
        next
          case land: (Inr v2)
          show ?thesis
          proof (cases v2)
            case (Some q')
            with assms edge Inr \<open>v = Some q\<close> enemy land show ?thesis
              by (simp add: check_dir_unfold)
          next
            case None
            from assms(1) edge Inr Some enemy land None obtain ml where
              ml: "probes (chain_dirs (is_white_move g) piece_used) (capture_game g (step d loc))
                     (is_white_move g) (jump d loc) piece_used True = Inr ml"
              and ms: "ms = \<lparr>move = hop_str loc (jump d loc), piece_captured = True\<rparr>
                            # map (prefix_move loc) ml"
              by (auto simp add: check_dir_unfold bind_Inr_iff)
            from assms(2) ms consider
              "m = \<lparr>move = hop_str loc (jump d loc), piece_captured = True\<rparr>"
              | m' where "m' \<in> set ml" "m = prefix_move loc m'"
              by auto
            then show ?thesis
            proof cases
              case 1
              with edge enemy Inr Some land None show ?thesis
                by (intro capture [of q]) simp_all
            next
              case 2
              from 2(1) probes_member [OF ml] obtain d' ms' where
                "d' \<in> set (chain_dirs (is_white_move g) piece_used)"
                "check_dir d' (capture_game g (step d loc)) (is_white_move g) (jump d loc)
                   piece_used True = Inr ms'" "m' \<in> set ms'"
                by blast
              with 2(2) edge enemy Inr Some land None show ?thesis
                by (intro chain [of q d' ms' m']) simp_all
            qed
          qed
        qed
      qed
    qed
  qed
qed

subsection \<open>A man never jumps backward\<close>

text \<open>Forward is toward row 7 for White and toward row 0 for Black.\<close>

fun rows_forward :: "bool \<Rightarrow> (nat \<times> nat) list \<Rightarrow> bool" where
  "rows_forward white [] = True"
| "rows_forward white [a] = True"
| "rows_forward white (a # b # rest) =
     ((if white then fst a < fst b else fst b < fst a) \<and> rows_forward white (b # rest))"

definition forward_dir :: "bool \<Rightarrow> direction \<Rightarrow> bool" where
  "forward_dir white d = (if white then d = TL \<or> d = TR else d = BL \<or> d = BR)"

lemma forward_step:
  "forward_dir w d \<Longrightarrow> edge_ok d loc \<Longrightarrow>
   (if w then fst loc < fst (step d loc) else fst (step d loc) < fst loc)"
  by (cases d) (auto simp: forward_dir_def split: if_splits)

lemma forward_jump:
  "forward_dir w d \<Longrightarrow> jump_ok d loc \<Longrightarrow>
   (if w then fst loc < fst (jump d loc) else fst (jump d loc) < fst loc)"
  by (cases d) (auto simp: forward_dir_def split: if_splits)

lemma chain_dirs_man:
  "\<not> is_king p \<Longrightarrow> d \<in> set (chain_dirs w p) \<Longrightarrow> forward_dir w d"
  by (auto simp: chain_dirs_def forward_dir_def split: if_splits)

lemma man_probe_forward:
  "\<not> is_king piece_used \<Longrightarrow> forward_dir (is_white_move g) d \<Longrightarrow>
   check_dir d g white loc piece_used double = Inr ms \<Longrightarrow> m \<in> set ms \<Longrightarrow>
   \<exists>path. move m = chain_str (loc # path) \<and> path \<noteq> [] \<and>
          rows_forward (is_white_move g) (loc # path)"
proof (induction d g white loc piece_used double arbitrary: ms m rule: check_dir_chain_induct)
  case (probe d g white loc piece_used double)
  from probe.prems(3,4) show ?case
  proof (cases rule: check_dir_member_cases)
    case simple
    with forward_step [OF probe.prems(2)] show ?thesis
      by (intro exI [of _ "[step d loc]"]) (simp add: hop_str_def)
  next
    case (capture q)
    with forward_jump [OF probe.prems(2)] show ?thesis
      by (intro exI [of _ "[jump d loc]"]) (simp add: hop_str_def)
  next
    case (chain q d' ms' m')
    have "forward_dir (is_white_move (capture_game g (step d loc))) d'"
      using chain(6) probe.prems(1) by (simp add: chain_dirs_man)
    from probe.IH [OF chain(1,3,4,2,5) probe.prems(1) this chain(7,8)]
    obtain path where p: "move m' = chain_str (jump d loc # path)" "path \<noteq> []"
      "rows_forward (is_white_move g) (jump d loc # path)"
      by auto
    with chain(9) forward_jump [OF probe.prems(2) chain(2)] show ?thesis
      by (intro exI [of _ "jump d loc # path"]) simp
  qed
qed


text \<open>
  White to move, and only Black men on the board, on (2, 2), (3, 1) and (5, 1): the
  position \<open>handle_events\<close> probes when the player clicks the Black man on (2, 2).
\<close>

definition board_d :: board_t where
  "board_d =
    [empty_row, empty_row,
     [None, None, bm, None, None, None, None, None],
     [None, bm, None, None, None, None, None, None],
     empty_row,
     [None, bm, None, None, None, None, None, None],
     empty_row, empty_row]"

definition game_d :: CheckersGame where
  "game_d = new_CheckersGame True board_d ''GAME''"

text \<open>
  C7 as stated fails: the directions follow the side to move, not the colour of the
  piece.  In \<open>game_d\<close>, White to move, the continuation probed for the Black man that
  has jumped from (2, 2) to (4, 0) goes on to (6, 2), toward row 7, which is backward
  for a Black piece.
\<close>

theorem chain_direction_counterexample:
  "is_white_move game_d \<and>
   cell (board game_d) (2, 2) = Inr (Some (new_Piece False)) \<and>
   is_white (new_Piece False) = False \<and> is_king (new_Piece False) = False \<and>
   check_additional_capture game_d (2, 2) (4, 0) (new_Piece False)
     = Inr [\<lparr>move = ''224062'', piece_captured = True\<rparr>] \<and>
   find_legal_moves_one_piece game_d ((2, 2), new_Piece False)
     = Inr [\<lparr>move = ''2240'', piece_captured = True\<rparr>,
            \<lparr>move = ''224062'', piece_captured = True\<rparr>] \<and>
   rows_forward False [(4, 0), (6, 2)] = False"
  by code_simp

text \<open>
  C7, amended.  When a capture chain goes on, the continuations of a man are probed in
  the two forward directions of the side to move only (\<open>TL\<close>, \<open>TR\<close>, toward row 7, when
  White is to move; \<open>BL\<close>, \<open>BR\<close>, toward row 0, when Black is to move), whatever the
  colour of the piece, and those of a king in all four; the probes at the start of a
  move are the same two for a man, and the four for a king.  So no continuation of a
  man goes against the direction of the side to move, and a man of the side to move
  never continues backward.
\<close>

theorem chain_probes_forward_for_men:
  "check_additional_capture g og_loc loc piece_used =
     bind (set_cell (board g) (midpoint og_loc loc) None) (\<lambda>b'.
     bind (probes (if is_king piece_used then [TL, TR, BL, BR]
                   else if is_white_move g then [TL, TR] else [BL, BR])
             ((make_copy_game g)\<lparr>board := b'\<rparr>) (is_white_move g) loc piece_used True)
       (\<lambda>moves_list. Inr (map (prefix_move og_loc) moves_list)))
   \<and> piece_probes g (loc, piece_used) acc =
       extend_with acc
         (probes (if is_white_move g then [TL, TR] @ (if is_king piece_used then [BL, BR] else [])
                  else [BL, BR] @ (if is_king piece_used then [TL, TR] else []))
            g (is_white_move g) loc piece_used False)
   \<and> (\<not> is_king piece_used \<longrightarrow>
        (\<forall>ms m. check_additional_capture g og_loc loc piece_used = Inr ms \<and> m \<in> set ms \<longrightarrow>
           (\<exists>path. move m = chain_str (og_loc # loc # path) \<and> path \<noteq> [] \<and>
                   rows_forward (is_white_move g) (loc # path))))
   \<and> (\<not> is_king piece_used \<and> is_white piece_used = is_white_move g \<longrightarrow>
        (\<forall>ms m. check_additional_capture g og_loc loc piece_used = Inr ms \<and> m \<in> set ms \<longrightarrow>
           (\<exists>path. move m = chain_str (og_loc # loc # path) \<and> path \<noteq> [] \<and>
                   rows_forward (is_white piece_used) (loc # path))))"
proof -
  have a: "check_additional_capture g og_loc loc piece_used =
     bind (set_cell (board g) (midpoint og_loc loc) None) (\<lambda>b'.
     bind (probes (if is_king piece_used then [TL, TR, BL, BR]
                   else if is_white_move g then [TL, TR] else [BL, BR])
             ((make_copy_game g)\<lparr>board := b'\<rparr>) (is_white_move g) loc piece_used True)
       (\<lambda>moves_list. Inr (map (prefix_move og_loc) moves_list)))"
    by (simp only: check_additional_capture_unfold chain_dirs_def)
  have b: "piece_probes g (loc, piece_used) acc =
       extend_with acc
         (probes (if is_white_move g then [TL, TR] @ (if is_king piece_used then [BL, BR] else [])
                  else [BL, BR] @ (if is_king piece_used then [TL, TR] else []))
            g (is_white_move g) loc piece_used False)"
    by (simp only: piece_probes_eq start_dirs_def fst_conv snd_conv)
  have fwd: "\<exists>path. move m = chain_str (og_loc # loc # path) \<and> path \<noteq> [] \<and>
                   rows_forward (is_white_move g) (loc # path)"
    if man: "\<not> is_king piece_used"
      and r: "check_additional_capture g og_loc loc piece_used = Inr ms \<and> m \<in> set ms"
    for ms m
  proof -
    from r obtain b' ml where
      ml: "probes (chain_dirs (is_white_move g) piece_used) ((make_copy_game g)\<lparr>board := b'\<rparr>)
             (is_white_move g) loc piece_used True = Inr ml"
      and ms: "ms = map (prefix_move og_loc) ml"
      unfolding check_additional_capture_unfold bind_Inr_iff by auto
    from r ms obtain m' where m': "m' \<in> set ml" "m = prefix_move og_loc m'"
      by auto
    from m'(1) probes_member [OF ml] obtain d' ms' where
      d': "d' \<in> set (chain_dirs (is_white_move g) piece_used)"
      and c: "check_dir d' ((make_copy_game g)\<lparr>board := b'\<rparr>) (is_white_move g) loc piece_used True
                = Inr ms'"
      and in': "m' \<in> set ms'"
      by blast
    have "forward_dir (is_white_move ((make_copy_game g)\<lparr>board := b'\<rparr>)) d'"
      using chain_dirs_man [OF man d'] by simp
    from man_probe_forward [OF man this c in'] obtain path where
      "move m' = chain_str (loc # path)" "path \<noteq> []" "rows_forward (is_white_move g) (loc # path)"
      by auto
    with m'(2) show ?thesis
      by (intro exI [of _ path]) simp
  qed
  have c: "\<not> is_king piece_used \<longrightarrow>
        (\<forall>ms m. check_additional_capture g og_loc loc piece_used = Inr ms \<and> m \<in> set ms \<longrightarrow>
           (\<exists>path. move m = chain_str (og_loc # loc # path) \<and> path \<noteq> [] \<and>
                   rows_forward (is_white_move g) (loc # path)))"
    using fwd by blast
  have d: "\<not> is_king piece_used \<and> is_white piece_used = is_white_move g \<longrightarrow>
        (\<forall>ms m. check_additional_capture g og_loc loc piece_used = Inr ms \<and> m \<in> set ms \<longrightarrow>
           (\<exists>path. move m = chain_str (og_loc # loc # path) \<and> path \<noteq> [] \<and>
                   rows_forward (is_white piece_used) (loc # path)))"
  proof (intro impI)
    assume h: "\<not> is_king piece_used \<and> is_white piece_used = is_white_move g"
    then have e: "is_white piece_used = is_white_move g" and k: "\<not> is_king piece_used"
      by simp_all
    from c k show "\<forall>ms m. check_additional_capture g og_loc loc piece_used = Inr ms \<and> m \<in> set ms \<longrightarrow>
           (\<exists>path. move m = chain_str (og_loc # loc # path) \<and> path \<noteq> [] \<and>
                   rows_forward (is_white piece_used) (loc # path))"
      unfolding e by (rule mp)
  qed
  show ?thesis
    by (rule conjI [OF a conjI [OF b conjI [OF c d]]])
qed

theorem chain_probes_forward_for_men_witness:
  "check_additional_capture game_b (0, 0) (2, 2) (new_Piece True)
     = Inr [\<lparr>move = ''002244'', piece_captured = True\<rparr>] \<and>
   is_white (new_Piece True) = is_white_move game_b \<and>
   (\<exists>path. ''002244'' = chain_str ((0, 0) # (2, 2) # path) \<and> path \<noteq> [] \<and>
           rows_forward (is_white (new_Piece True)) ((2, 2) # path)) \<and>
   check_additional_capture game_b_king (0, 0) (2, 2) ((new_Piece True)\<lparr>is_king := True\<rparr>)
     = Inr [\<lparr>move = ''002244'', piece_captured = True\<rparr>,
            \<lparr>move = ''002204'', piece_captured = True\<rparr>]"
proof -
  have e: "check_additional_capture game_b (0, 0) (2, 2) (new_Piece True)
     = Inr [\<lparr>move = ''002244'', piece_captured = True\<rparr>]"
    by code_simp
  have k: "check_additional_capture game_b_king (0, 0) (2, 2) ((new_Piece True)\<lparr>is_king := True\<rparr>)
     = Inr [\<lparr>move = ''002244'', piece_captured = True\<rparr>,
            \<lparr>move = ''002204'', piece_captured = True\<rparr>]"
    by code_simp
  have man: "\<not> is_king (new_Piece True) \<and> is_white (new_Piece True) = is_white_move game_b"
    by code_simp
  from chain_probes_forward_for_men [of game_b "(0, 0)" "(2, 2)" "new_Piece True" "Inr []",
      THEN conjunct2, THEN conjunct2, THEN conjunct2, rule_format, OF man,
      of "[\<lparr>move = ''002244'', piece_captured = True\<rparr>]" "\<lparr>move = ''002244'', piece_captured = True\<rparr>"]
    e
  have "\<exists>path. ''002244'' = chain_str ((0, 0) # (2, 2) # path) \<and> path \<noteq> [] \<and>
           rows_forward (is_white (new_Piece True)) ((2, 2) # path)"
    by simp
  with e k man show ?thesis
    by simp
qed

section \<open>Promotion\<close>

text \<open>The square rewriting of \<open>make_move\<close>, before the side to move flips.\<close>

definition apply_squares :: "'a grid \<Rightarrow> Move \<Rightarrow> error + 'a grid" where
  "apply_squares b m =
     (if \<not> piece_captured m then relocate b (move m) 0
      else capture_hops b (move m) [0 ..< length (move m) div 2 - 1])"

text \<open>What \<open>_update_pieces\<close> does to the piece \<open>p\<close> found on \<open>loc\<close>.\<close>

definition crown :: "nat \<times> nat \<Rightarrow> Piece \<Rightarrow> Piece" where
  "crown loc p =
     (if (is_white p \<and> fst loc = 7) \<or> (\<not> is_white p \<and> fst loc = 0)
      then p\<lparr>is_king := True\<rparr> else p)"

lemma make_move_board:
  assumes "make_move g m = Inr g'"
  shows "\<exists>b1 locations. apply_squares (board g) m = Inr b1 \<and>
           pieces_loop b1 ''any'' all_squares [] = Inr locations \<and>
           board g' = fold crown_step locations b1"
proof -
  let ?first = "(if \<not> piece_captured m
             then bind (relocate (board g) (move m) 0) (\<lambda>b. Inr (g\<lparr>board := b\<rparr>))
           else bind (capture_hops (board g) (move m) [0 ..< length (move m) div 2 - 1])
                  (\<lambda>b. Inr (g\<lparr>moves_since_cap := - 1, board := b\<rparr>)))"
  from assms have "bind ?first
       (\<lambda>g1. bind (update_pieces (g1\<lparr>is_white_move := \<not> is_white_move g1\<rparr>))
       (\<lambda>g2. terminal_check (g2\<lparr>moves_since_cap := moves_since_cap g2 + 1\<rparr>))) = Inr g'"
    by (simp only: make_move_def)
  then obtain g1 where s1: "?first = Inr g1"
    and s23: "bind (update_pieces (g1\<lparr>is_white_move := \<not> is_white_move g1\<rparr>))
       (\<lambda>g2. terminal_check (g2\<lparr>moves_since_cap := moves_since_cap g2 + 1\<rparr>)) = Inr g'"
    by (subst (asm) bind_Inr_iff) blast
  from s23 obtain g2 where s2: "update_pieces (g1\<lparr>is_white_move := \<not> is_white_move g1\<rparr>) = Inr g2"
    and s3: "terminal_check (g2\<lparr>moves_since_cap := moves_since_cap g2 + 1\<rparr>) = Inr g'"
    by (subst (asm) bind_Inr_iff) blast
  have b1: "apply_squares (board g) m = Inr (board g1)"
  proof (cases "piece_captured m")
    case True
    with s1 show ?thesis by (auto simp: bind_Inr_iff apply_squares_def)
  next
    case False
    with s1 show ?thesis by (auto simp: bind_Inr_iff apply_squares_def)
  qed
  from s2 obtain locations where l: "pieces_loop (board g1) ''any'' all_squares [] = Inr locations"
    and g2: "board g2 = fold crown_step locations (board g1)"
    by (auto simp: update_pieces_def return_all_pieces_location_def bind_Inr_iff)
  from terminal_check_Inr [OF s3] obtain legal :: "Move list" where
    "g' = (if legal = [] \<and> is_white_move (g2\<lparr>moves_since_cap := moves_since_cap g2 + 1\<rparr>)
                \<and> main_game (g2\<lparr>moves_since_cap := moves_since_cap g2 + 1\<rparr>)
             then g2\<lparr>moves_since_cap := moves_since_cap g2 + 1, white_win := False, gamestate := ''END''\<rparr>
           else if legal = [] \<and> \<not> is_white_move (g2\<lparr>moves_since_cap := moves_since_cap g2 + 1\<rparr>)
                \<and> main_game (g2\<lparr>moves_since_cap := moves_since_cap g2 + 1\<rparr>)
             then g2\<lparr>moves_since_cap := moves_since_cap g2 + 1, white_win := True, gamestate := ''END''\<rparr>
           else if moves_since_cap (g2\<lparr>moves_since_cap := moves_since_cap g2 + 1\<rparr>) \<ge> 50
                \<and> main_game (g2\<lparr>moves_since_cap := moves_since_cap g2 + 1\<rparr>)
             then g2\<lparr>moves_since_cap := moves_since_cap g2 + 1, white_win := True, is_draw := True, gamestate := ''END''\<rparr>
           else g2\<lparr>moves_since_cap := moves_since_cap g2 + 1\<rparr>)"
    by blast
  then have "board g' = board g2"
    by simp
  with b1 l g2 show ?thesis by simp
qed

subsection \<open>The promotion sweep, square by square\<close>

lemma cell_crown_step_same:
  "cell b loc = Inr (Some p) \<Longrightarrow> cell (crown_step (loc, p) b) loc = Inr (Some (crown loc p))"
  by (simp add: crown_step_def crown_def cell_put_same)

lemma cell_crown_step_other:
  "loc' \<noteq> loc \<Longrightarrow> cell (crown_step (loc, p) b) loc' = cell b loc'"
  by (simp add: crown_step_def cell_put_other)

lemma fold_crown_step_cell:
  assumes "distinct (map fst locs)" "\<forall>x\<in>set locs. cell b (fst x) = Inr (Some (snd x))"
  shows "cell (fold crown_step locs b) loc' =
           (case map_of locs loc' of None \<Rightarrow> cell b loc' | Some p \<Rightarrow> Inr (Some (crown loc' p)))"
  using assms
proof (induction locs arbitrary: b)
  case Nil
  then show ?case by simp
next
  case (Cons x locs)
  obtain l p where x: "x = (l, p)" by (cases x)
  let ?b1 = "crown_step (l, p) b"
  from Cons.prems x have d: "distinct (map fst locs)" and nl: "l \<notin> fst ` set locs"
    and here: "cell b l = Inr (Some p)"
    by auto
  have rest: "\<forall>y\<in>set locs. cell ?b1 (fst y) = Inr (Some (snd y))"
  proof
    fix y assume y: "y \<in> set locs"
    with nl have "fst y \<noteq> l" by auto
    with Cons.prems(2) y show "cell ?b1 (fst y) = Inr (Some (snd y))"
      by (simp add: cell_crown_step_other)
  qed
  have ih: "cell (fold crown_step locs ?b1) loc' =
      (case map_of locs loc' of None \<Rightarrow> cell ?b1 loc' | Some p \<Rightarrow> Inr (Some (crown loc' p)))"
    by (rule Cons.IH [OF d rest])
  show ?case
  proof (cases "loc' = l")
    case True
    with nl have "map_of locs loc' = None"
      by (simp add: map_of_eq_None_iff)
    with ih True x here show ?thesis
      by (simp add: cell_crown_step_same)
  next
    case False
    with ih x show ?thesis
      by (simp add: cell_crown_step_other split: option.splits)
  qed
qed

lemma distinct_all_squares: "distinct all_squares"
  by (simp add: all_squares_def distinct_product)

lemma pieces_on_fst:
  "map fst (pieces_on b colour sqs) = filter (\<lambda>loc. \<exists>p. (loc, p) \<in> set (pieces_on b colour [loc])) sqs"
  by (induction sqs) (auto simp: pieces_on_def split: option.splits)

lemma distinct_pieces_on: "distinct sqs \<Longrightarrow> distinct (map fst (pieces_on b colour sqs))"
  by (simp add: pieces_on_fst)

lemma map_of_pieces_on_any:
  "distinct sqs \<Longrightarrow>
   map_of (pieces_on b ''any'' sqs) loc = (if loc \<in> set sqs then b ! fst loc ! snd loc else None)"
proof -
  assume d: "distinct sqs"
  show ?thesis
  proof (cases "map_of (pieces_on b ''any'' sqs) loc")
    case None
    then have "\<forall>p. (loc, p) \<notin> set (pieces_on b ''any'' sqs)"
      by (metis (no_types, lifting) distinct_pieces_on [OF d] map_of_eq_Some_iff option.distinct(1))
    then show ?thesis
      using None by (cases "b ! fst loc ! snd loc") (auto simp: pieces_on_member colour_ok_def)
  next
    case (Some p)
    then have "(loc, p) \<in> set (pieces_on b ''any'' sqs)"
      by (rule map_of_SomeD)
    with Some show ?thesis
      by (simp add: pieces_on_member)
  qed
qed

lemma update_pieces_cells:
  assumes "wf_board b" "on_board loc"
  shows "cell (fold crown_step (pieces_on b ''any'' all_squares) b) loc
           = Inr (map_option (crown loc) (b ! fst loc ! snd loc))"
proof -
  have "\<forall>x\<in>set (pieces_on b ''any'' all_squares). cell b (fst x) = Inr (Some (snd x))"
  proof
    fix x assume "x \<in> set (pieces_on b ''any'' all_squares)"
    then have "on_board (fst x) \<and> b ! fst (fst x) ! snd (fst x) = Some (snd x)"
      using pieces_on_member [of "fst x" "snd x"] by (simp add: set_all_squares)
    with assms(1) show "cell b (fst x) = Inr (Some (snd x))"
      by (simp add: cell_wf)
  qed
  from fold_crown_step_cell [OF distinct_pieces_on [OF distinct_all_squares] this, of loc]
  show ?thesis
    using assms
    by (simp add: map_of_pieces_on_any distinct_all_squares set_all_squares cell_wf
             split: option.splits)
qed


subsection \<open>The square rewriting moves pieces and never changes one\<close>

definition map_grid :: "('a \<Rightarrow> 'b) \<Rightarrow> 'a grid \<Rightarrow> 'b grid" where
  "map_grid f b = map (map (map_option f)) b"

definition contents :: "'a grid \<Rightarrow> 'a set" where
  "contents b = {x. \<exists>loc. cell b loc = Inr (Some x)}"

lemma cell_map_grid: "cell (map_grid f b) loc = map_sum id (map_option f) (cell b loc)"
  by (simp add: cell_def map_grid_def)

lemma put_map_grid: "put (map_grid f b) loc (map_option f v) = map_grid f (put b loc v)"
  by (cases "fst loc < length b") (simp_all add: put_def map_grid_def map_update list_update_beyond)

lemma row_at_map_grid: "row_at (map_grid f b) r = map_sum id (map (map_option f)) (row_at b r)"
  by (simp add: row_at_def map_grid_def)

lemma read_at_map_grid:
  "read_at (map_grid f b) s i j = map_sum id (map_option f) (read_at b s i j)"
  unfolding read_at_def row_at_map_grid
  by (cases "digit_at s i"; cases "digit_at s j"; cases "row_at b (projr (digit_at s i))")
     (simp_all add: bind_def)

lemma write_at_map_grid:
  "write_at (map_grid f b) s i j (map_option f v) = map_sum id (map_grid f) (write_at b s i j v)"
  unfolding write_at_def row_at_map_grid
  by (cases "digit_at s i"; cases "digit_at s j"; cases "row_at b (projr (digit_at s i))")
     (simp_all add: bind_def put_map_grid)

lemma relocate_map_grid:
  "relocate (map_grid f b) s i = map_sum id (map_grid f) (relocate b s i)"
proof (cases "read_at b s i (i + 1)")
  case (Inl e)
  then show ?thesis by (simp add: relocate_def read_at_map_grid bind_def)
next
  case (Inr old)
  show ?thesis
  proof (cases "write_at b s i (i + 1) None")
    case (Inl e)
    with Inr write_at_map_grid [of f b s i "i + 1" None] show ?thesis
      by (simp add: relocate_def read_at_map_grid bind_def)
  next
    case b1: (Inr b1)
    with Inr write_at_map_grid [of f b s i "i + 1" None]
      write_at_map_grid [of f b1 s "i + 2" "i + 3" old] show ?thesis
      by (simp add: relocate_def read_at_map_grid bind_def)
  qed
qed

lemma clear_jumped_map_grid:
  "clear_jumped (map_grid f b) s i = map_sum id (map_grid f) (clear_jumped b s i)"
  unfolding clear_jumped_def row_at_map_grid
  by (cases "digit_at s i"; cases "digit_at s (i + 2)"; cases "digit_at s (i + 1)";
      cases "digit_at s (i + 3)";
      cases "row_at b ((projr (digit_at s i) + projr (digit_at s (i + 2))) div 2)")
     (simp_all add: bind_def put_map_grid [of f _ _ None, simplified])

lemma capture_hops_map_grid:
  "capture_hops (map_grid f b) s hops = map_sum id (map_grid f) (capture_hops b s hops)"
proof (induction hops arbitrary: b)
  case Nil
  then show ?case by simp
next
  case (Cons h hops)
  show ?case
  proof (cases "relocate b s (h * 2)")
    case (Inl e)
    then show ?thesis by (simp add: relocate_map_grid bind_def)
  next
    case (Inr b1)
    show ?thesis
    proof (cases "clear_jumped b1 s (h * 2)")
      case (Inl e)
      with Inr show ?thesis by (simp add: relocate_map_grid clear_jumped_map_grid bind_def)
    next
      case b2: (Inr b2)
      with Inr Cons.IH [of b2] show ?thesis
        by (simp add: relocate_map_grid clear_jumped_map_grid bind_def)
    qed
  qed
qed

lemma apply_squares_map_grid:
  "apply_squares (map_grid f b) m = map_sum id (map_grid f) (apply_squares b m)"
  by (simp add: apply_squares_def relocate_map_grid capture_hops_map_grid)


lemma cell_put_cases:
  "cell (put b loc v) loc' = (if loc' = loc \<and> cell b loc \<noteq> Inl IndexError then Inr v else cell b loc')"
proof (cases "loc' = loc")
  case False
  then show ?thesis by (simp add: cell_put_other)
next
  case True
  show ?thesis
  proof (cases "cell b loc")
    case (Inl e)
    then have "put b loc v = b"
      by (auto simp: cell_def put_def list_update_beyond split: if_splits)
    with Inl True show ?thesis by (auto simp: cell_def split: if_splits)
  next
    case (Inr w)
    with True show ?thesis by (simp add: cell_put_same)
  qed
qed

lemma contents_put: "contents (put b loc v) \<subseteq> contents b \<union> set_option v"
  by (auto simp: contents_def cell_put_cases split: if_splits)

lemma write_at_Inr_iff:
  "write_at b s i j v = Inr b' \<longleftrightarrow>
   (\<exists>r c. digit_at s i = Inr r \<and> digit_at s j = Inr c \<and> r < length b \<and> c < length (b ! r) \<and>
          b' = put b (r, c) v)"
  unfolding write_at_def bind_Inr_iff row_at_def by (auto split: if_splits)

lemma read_at_Inr_iff:
  "read_at b s i j = Inr v \<longleftrightarrow>
   (\<exists>r c. digit_at s i = Inr r \<and> digit_at s j = Inr c \<and> r < length b \<and> c < length (b ! r) \<and>
          v = b ! r ! c)"
  unfolding read_at_def bind_Inr_iff row_at_def by (auto split: if_splits)

lemma relocate_Inr:
  assumes "relocate b s i = Inr b'"
  shows "\<exists>src dst old. cell b src = Inr old \<and> b' = put (put b src None) dst old"
proof -
  from assms obtain old b1 where "read_at b s i (i + 1) = Inr old"
    "write_at b s i (i + 1) None = Inr b1" "write_at b1 s (i + 2) (i + 3) old = Inr b'"
    unfolding relocate_def bind_Inr_iff by blast
  then obtain r c dst where "r < length b" "c < length (b ! r)" "old = b ! r ! c"
    "b1 = put b (r, c) None" "b' = put b1 dst old"
    unfolding read_at_Inr_iff write_at_Inr_iff by auto
  then have "cell b (r, c) = Inr old \<and> b' = put (put b (r, c) None) dst old"
    by (simp add: cell_def)
  then show ?thesis by blast
qed

lemma clear_jumped_Inr:
  assumes "clear_jumped b s i = Inr b'"
  shows "\<exists>loc. b' = put b loc None"
  using assms unfolding clear_jumped_def bind_Inr_iff by (auto split: if_splits)

definition moved_only :: "'a grid \<Rightarrow> 'a grid \<Rightarrow> bool" where
  "moved_only b b' = (contents b' \<subseteq> contents b \<and> (wf_board b \<longrightarrow> wf_board b'))"

lemma moved_only_refl: "moved_only b b"
  by (simp add: moved_only_def)

lemma moved_only_trans: "moved_only b b1 \<Longrightarrow> moved_only b1 b2 \<Longrightarrow> moved_only b b2"
  by (auto simp: moved_only_def)

lemma moved_only_put_None: "moved_only b (put b loc None)"
  using contents_put [of b loc None] by (auto simp: moved_only_def wf_board_put)

lemma moved_only_relocate: "relocate b s i = Inr b' \<Longrightarrow> moved_only b b'"
proof -
  assume "relocate b s i = Inr b'"
  from relocate_Inr [OF this] obtain src dst old where
    o: "cell b src = Inr old" and b': "b' = put (put b src None) dst old"
    by blast
  have "set_option old \<subseteq> contents b"
  proof (cases old)
    case None
    then show ?thesis by simp
  next
    case (Some x)
    with o have "\<exists>loc. cell b loc = Inr (Some x)" by blast
    with Some show ?thesis by (simp add: contents_def)
  qed
  with contents_put [of "put b src None" dst old] contents_put [of b src None]
  show ?thesis
    by (auto simp: moved_only_def b' wf_board_put)
qed

lemma moved_only_clear_jumped: "clear_jumped b s i = Inr b' \<Longrightarrow> moved_only b b'"
  using clear_jumped_Inr [of b s i b'] moved_only_put_None by auto

lemma moved_only_capture_hops: "capture_hops b s hops = Inr b' \<Longrightarrow> moved_only b b'"
proof (induction hops arbitrary: b)
  case Nil
  then show ?case by (simp add: moved_only_refl)
next
  case (Cons h hops)
  from Cons.prems obtain b1 b2 where "relocate b s (h * 2) = Inr b1"
    "clear_jumped b1 s (h * 2) = Inr b2" "capture_hops b2 s hops = Inr b'"
    by (auto simp: bind_Inr_iff)
  with Cons.IH [of b2] show ?case
    by (blast intro: moved_only_trans moved_only_relocate moved_only_clear_jumped)
qed

lemma moved_only_apply_squares: "apply_squares b m = Inr b' \<Longrightarrow> moved_only b b'"
  by (auto simp: apply_squares_def moved_only_relocate moved_only_capture_hops split: if_splits)

text \<open>Every piece tagged with the square it stands on.\<close>

definition label :: "'a grid \<Rightarrow> ((nat \<times> nat) \<times> 'a) grid" where
  "label b = map (\<lambda>r. map (\<lambda>c. map_option (\<lambda>p. ((r, c), p)) (b ! r ! c)) [0 ..< length (b ! r)])
                 [0 ..< length b]"

lemma map_grid_label: "map_grid snd (label b) = b"
  by (auto simp: map_grid_def label_def option.map_comp comp_def option.map_ident
           intro!: nth_equalityI)

lemma cell_label: "cell (label b) loc = map_sum id (map_option (Pair loc)) (cell b loc)"
  by (cases loc) (simp add: cell_def label_def)

lemma contents_label:
  "(loc0, p) \<in> contents (label b) \<Longrightarrow> cell b loc0 = Inr (Some p)"
proof -
  assume "(loc0, p) \<in> contents (label b)"
  then obtain loc where "map_sum id (map_option (Pair loc)) (cell b loc) = Inr (Some (loc0, p))"
    by (auto simp: contents_def cell_label)
  then show ?thesis
    by (cases "cell b loc") auto
qed


lemma contentsI: "cell b loc = Inr (Some x) \<Longrightarrow> x \<in> contents b"
  unfolding contents_def by blast

lemma wf_board_crown_step: "wf_board b \<Longrightarrow> wf_board (crown_step x b)"
  by (simp add: crown_step_def wf_board_put)

lemma wf_board_fold_crown_step: "wf_board b \<Longrightarrow> wf_board (fold crown_step locs b)"
  by (induction locs arbitrary: b) (simp_all add: wf_board_crown_step)

text \<open>
  White to move: the man on (6, 0) can step onto row 7; a white king stands on (3, 3)
  and a black man on (5, 5).
\<close>

definition board_c :: board_t where
  "board_c =
    [empty_row, empty_row, empty_row,
     [None, None, None, wk, None, None, None, None],
     empty_row,
     [None, None, None, None, None, bm, None, None],
     [wm, None, None, None, None, None, None, None],
     empty_row]"

definition game_c :: CheckersGame where
  "game_c = new_CheckersGame True board_c ''GAME''"

text \<open>
  C8.  After \<open>make_move\<close> every White piece on row 7 and every Black piece on row 0 is
  a king.  And no piece loses \<open>is_king\<close>: tag every piece with the square it stands on
  and let the square rewriting of \<open>make_move\<close> run on the tagged board; then every
  square that ends up occupied holds the piece its tag names, of the same colour, a
  king if it was one or if it now stands on its far row, and a man otherwise; the other
  squares are empty.  \<open>make_copy_game\<close> copies the board as it is.
\<close>

theorem promotion_is_irreversible:
  assumes "wf_board (board g)" "make_move g m = Inr g'"
  shows "(\<forall>loc p'. cell (board g') loc = Inr (Some p') \<longrightarrow>
            (is_white p' \<and> fst loc = 7 \<longrightarrow> is_king p') \<and>
            (\<not> is_white p' \<and> fst loc = 0 \<longrightarrow> is_king p')) \<and>
         (\<exists>t. apply_squares (label (board g)) m = Inr t \<and>
            (\<forall>loc. on_board loc \<longrightarrow>
               (cell t loc = Inr None \<and> cell (board g') loc = Inr None) \<or>
               (\<exists>loc0 p p'. cell t loc = Inr (Some (loc0, p)) \<and>
                   cell (board g) loc0 = Inr (Some p) \<and>
                   cell (board g') loc = Inr (Some p') \<and>
                   is_white p' = is_white p \<and>
                   is_king p' = (is_king p \<or> (is_white p \<and> fst loc = 7)
                                          \<or> (\<not> is_white p \<and> fst loc = 0))))) \<and>
         board (make_copy_game g) = board g"
proof -
  from make_move_board [OF assms(2)] obtain b1 locations where
    b1: "apply_squares (board g) m = Inr b1"
    and l: "pieces_loop b1 ''any'' all_squares [] = Inr locations"
    and g': "board g' = fold crown_step locations b1"
    by blast
  have wf1: "wf_board b1"
    using moved_only_apply_squares [OF b1] assms(1) by (simp add: moved_only_def)
  have "locations = pieces_on b1 ''any'' all_squares"
    using l pieces_loop_wf [OF wf1, of all_squares "''any''" "[]"] by (simp add: set_all_squares)
  with g' have g'': "board g' = fold crown_step (pieces_on b1 ''any'' all_squares) b1"
    by simp
  have wf': "wf_board (board g')"
    using wf1 by (simp add: g'' wf_board_fold_crown_step)
  have after: "cell (board g') loc = Inr (map_option (crown loc) (b1 ! fst loc ! snd loc))"
    if "on_board loc" for loc
    using update_pieces_cells [OF wf1 that] by (simp add: g'')
  have "apply_squares (map_grid snd (label (board g))) m = Inr b1"
    using b1 by (simp add: map_grid_label)
  then obtain t where t: "apply_squares (label (board g)) m = Inr t" and tb: "map_grid snd t = b1"
    unfolding apply_squares_map_grid by (cases "apply_squares (label (board g)) m") auto
  have sub: "contents t \<subseteq> contents (label (board g))"
    using moved_only_apply_squares [OF t] by (simp add: moved_only_def)
  have first: "(is_white p' \<and> fst loc = 7 \<longrightarrow> is_king p') \<and> (\<not> is_white p' \<and> fst loc = 0 \<longrightarrow> is_king p')"
    if c: "cell (board g') loc = Inr (Some p')" for loc p'
  proof -
    have on: "on_board loc"
      using wf' c by (rule cell_Inr_wf)
    from after [OF on] c obtain p where "p' = crown loc p"
      by (cases "b1 ! fst loc ! snd loc") auto
    then show ?thesis
      by (auto simp: crown_def)
  qed
  have second: "(cell t loc = Inr None \<and> cell (board g') loc = Inr None) \<or>
               (\<exists>loc0 p p'. cell t loc = Inr (Some (loc0, p)) \<and>
                   cell (board g) loc0 = Inr (Some p) \<and>
                   cell (board g') loc = Inr (Some p') \<and>
                   is_white p' = is_white p \<and>
                   is_king p' = (is_king p \<or> (is_white p \<and> fst loc = 7)
                                          \<or> (\<not> is_white p \<and> fst loc = 0)))"
    if on: "on_board loc" for loc
  proof -
    have "cell b1 loc = map_sum id (map_option snd) (cell t loc)"
      using cell_map_grid [of snd t loc] by (simp add: tb)
    with cell_wf [OF wf1 on] obtain v where v: "cell t loc = Inr v"
      and bv: "b1 ! fst loc ! snd loc = map_option snd v"
      by (cases "cell t loc") auto
    show ?thesis
    proof (cases v)
      case None
      with v bv after [OF on] show ?thesis by simp
    next
      case (Some x)
      obtain loc0 p where x: "x = (loc0, p)" by (cases x)
      from v Some x have "(loc0, p) \<in> contents t"
        by (intro contentsI [of t loc]) simp
      with sub have "cell (board g) loc0 = Inr (Some p)"
        by (auto dest: contents_label)
      moreover have "cell (board g') loc = Inr (Some (crown loc p))"
        using after [OF on] bv Some x by simp
      moreover have "is_white (crown loc p) = is_white p"
        "is_king (crown loc p) = (is_king p \<or> (is_white p \<and> fst loc = 7)
                                          \<or> (\<not> is_white p \<and> fst loc = 0))"
        by (auto simp: crown_def)
      ultimately show ?thesis
        using v Some x by blast
    qed
  qed
  from first second t show ?thesis
    by (intro conjI allI impI exI [of _ t]) (simp_all add: first)
qed

theorem promotion_is_irreversible_witness:
  "wf_board (board game_c) \<and>
   (\<exists>g'. make_move game_c \<lparr>move = ''6071'', piece_captured = False\<rparr> = Inr g' \<and>
      cell (board g') (7, 1) = Inr (Some \<lparr>is_white = True, is_king = True\<rparr>) \<and>
      cell (board g') (3, 3) = Inr (Some \<lparr>is_white = True, is_king = True\<rparr>) \<and>
      cell (board g') (5, 5) = Inr (Some \<lparr>is_white = False, is_king = False\<rparr>))"
proof -
  let ?m = "\<lparr>move = ''6071'', piece_captured = False\<rparr>"
  have wf: "wf_board (board game_c)"
    by code_simp
  have "\<not> isl (make_move game_c ?m)"
    by code_simp
  then obtain g' where h: "make_move game_c ?m = Inr g'"
    by (cases "make_move game_c ?m") auto
  have e: "map_sum id (\<lambda>g. map (\<lambda>loc. map_sum id (map_option is_white) (cell (board g) loc))
             [(7, 1), (3, 3), (5, 5)]) (make_move game_c ?m)
           = Inr [Inr (Some True), Inr (Some True), Inr (Some False)]"
    by code_simp
  have t: "map_sum id (\<lambda>t. map (cell t) [(7, 1), (3, 3), (5, 5)])
             (apply_squares (label (board game_c)) ?m)
           = Inr [Inr (Some ((6, 0), \<lparr>is_white = True, is_king = False\<rparr>)),
                  Inr (Some ((3, 3), \<lparr>is_white = True, is_king = True\<rparr>)),
                  Inr (Some ((5, 5), \<lparr>is_white = False, is_king = False\<rparr>))]"
    by code_simp
  from promotion_is_irreversible [OF wf h] obtain t' where
    t': "apply_squares (label (board game_c)) ?m = Inr t'"
    and track: "\<And>loc. on_board loc \<Longrightarrow>
         (cell t' loc = Inr None \<and> cell (board g') loc = Inr None) \<or>
               (\<exists>loc0 p p'. cell t' loc = Inr (Some (loc0, p)) \<and>
                   cell (board game_c) loc0 = Inr (Some p) \<and>
                   cell (board g') loc = Inr (Some p') \<and>
                   is_white p' = is_white p \<and>
                   is_king p' = (is_king p \<or> (is_white p \<and> fst loc = 7)
                                          \<or> (\<not> is_white p \<and> fst loc = 0)))"
    by blast
  from t t' have c: "cell t' (7, 1) = Inr (Some ((6, 0), \<lparr>is_white = True, is_king = False\<rparr>))"
    "cell t' (3, 3) = Inr (Some ((3, 3), \<lparr>is_white = True, is_king = True\<rparr>))"
    "cell t' (5, 5) = Inr (Some ((5, 5), \<lparr>is_white = False, is_king = False\<rparr>))"
    by simp_all
  have on: "on_board (7, 1)" "on_board (3, 3)" "on_board (5, 5)"
    by (simp_all add: on_board_def)
  from track [OF on(1)] c(1) have a: "cell (board g') (7, 1) = Inr (Some \<lparr>is_white = True, is_king = True\<rparr>)"
    by auto
  from track [OF on(2)] c(2) have b: "cell (board g') (3, 3) = Inr (Some \<lparr>is_white = True, is_king = True\<rparr>)"
    by auto
  from track [OF on(3)] c(3) have d: "cell (board g') (5, 5) = Inr (Some \<lparr>is_white = False, is_king = False\<rparr>)"
    by auto
  from wf h a b d show ?thesis
    by blast
qed

section \<open>Game trees and their text format (final\_trees\_and\_bots.py)\<close>

datatype CheckersGameTree =
  CheckersGameTree (node_move: Move) (white_turn: bool) (subtrees: "CheckersGameTree list")

subsection \<open>int() on a string\<close>

text \<open>
  \<open>int(s)\<close> on an ASCII string: white space around the number (tab, line feed,
  vertical tab, form feed, carriage return, space) is dropped, a sign may come first,
  and single underscores may stand between digits; anything else raises ValueError.
\<close>

definition is_space :: "char \<Rightarrow> bool" where
  "is_space ch = ((of_char ch :: nat) \<in> {9, 10, 11, 12, 13, 32})"

definition is_digit :: "char \<Rightarrow> bool" where
  "is_digit ch = (48 \<le> (of_char ch :: nat) \<and> (of_char ch :: nat) \<le> 57)"

definition strip :: "string \<Rightarrow> string" where
  "strip s = rev (dropWhile is_space (rev (dropWhile is_space s)))"

fun digits_ok :: "string \<Rightarrow> bool" where
  "digits_ok [] = False"
| "digits_ok [c] = is_digit c"
| "digits_ok (c # d # rest) =
     (is_digit c \<and> (if d = CHR ''_'' then digits_ok rest else digits_ok (d # rest)))"

definition digits_value :: "string \<Rightarrow> nat" where
  "digits_value s = foldl (\<lambda>acc ch. acc * 10 + ((of_char ch :: nat) - 48)) 0 (filter is_digit s)"

definition py_int :: "string \<Rightarrow> error + int" where
  "py_int s =
     (let t = strip s;
          neg = (t \<noteq> [] \<and> hd t = CHR ''-'');
          u = (if t \<noteq> [] \<and> (hd t = CHR ''-'' \<or> hd t = CHR ''+'') then tl t else t)
      in if digits_ok u
         then Inr (if neg then - int (digits_value u) else int (digits_value u))
         else Inl ValueError)"

subsection \<open>export\_tree\<close>

text \<open>The row of one node: the move, the two flags, a comma, the number of subtrees.\<close>

definition node_row :: "CheckersGameTree \<Rightarrow> string" where
  "node_row tree =
     move (node_move tree)
     @ (if piece_captured (node_move tree) then ''1'' else ''0'')
     @ (if white_turn tree then ''1'' else ''0'')
     @ '','' @ str (length (subtrees tree)) @ [CHR 0x0A]"

text \<open>
  A file is its text.  Every call of \<open>export_tree\<close> opens the file for appending in a
  file object of its own, writes the row of its node into it and calls itself on every
  subtree; it never flushes or closes.  The row (a few bytes) stays in the buffer of the
  file object until the object is released, when the call returns: so the rows of the
  subtrees, written by calls that return earlier, are in the file before the row of the
  node.  \<open>export_tree\<close> gives the text of the file after the call.
\<close>

fun export_tree :: "string \<Rightarrow> CheckersGameTree \<Rightarrow> string" where
  "export_tree file (CheckersGameTree m w subs) =
     fold (\<lambda>subtree f. export_tree f subtree) subs file
       @ node_row (CheckersGameTree m w subs)"

text \<open>
  For comparison only, not what the program leaves in the file: the rows in the order
  of the \<open>write\<close> calls, as the file would hold them if every \<open>write\<close> reached it at
  once.
\<close>

fun rows_in_write_order :: "string \<Rightarrow> CheckersGameTree \<Rightarrow> string" where
  "rows_in_write_order file (CheckersGameTree m w subs) =
     fold (\<lambda>subtree f. rows_in_write_order f subtree) subs
       (file @ node_row (CheckersGameTree m w subs))"

subsection \<open>import\_tree and import\_compile\<close>

text \<open>
  \<open>for row in file\<close>, the file opened in text mode: a row ends at a line feed, at a
  carriage return or at a carriage return followed by a line feed, and each of them
  is handed over as one line feed at the end of the row.
\<close>

definition after_cr :: "string \<Rightarrow> string" where
  "after_cr rest = (case rest of [] \<Rightarrow> [] | c # r \<Rightarrow> if c = CHR 0x0A then r else rest)"

lemma length_after_cr [termination_simp]: "length (after_cr rest) \<le> length rest"
  by (cases rest) (simp_all add: after_cr_def)

function file_rows :: "string \<Rightarrow> string \<Rightarrow> string list" where
  "file_rows chars cur =
     (case chars of
        [] \<Rightarrow> (if cur = [] then [] else [cur])
      | ch # rest \<Rightarrow>
          if ch = CHR 0x0A then (cur @ [CHR 0x0A]) # file_rows rest []
          else if ch = CHR 0x0D then (cur @ [CHR 0x0A]) # file_rows (after_cr rest) []
          else file_rows rest (cur @ [ch]))"
  by pat_completeness auto

termination file_rows
proof (relation "measure (\<lambda>(chars, cur). length chars)", goal_cases)
  case 1
  then show ?case by simp
next
  case (2 chars cur ch rest)
  then show ?case by simp
next
  case (3 chars cur ch rest)
  then show ?case
    using length_after_cr [of rest] by simp
next
  case (4 chars cur ch rest)
  then show ?case by simp
qed

declare file_rows.simps [simp del]

text \<open>\<open>row.split(',')\<close>.\<close>

fun split_comma :: "string \<Rightarrow> string \<Rightarrow> string list" where
  "split_comma [] cur = [cur]"
| "split_comma (ch # rest) cur =
     (if ch = CHR '','' then cur # split_comma rest [] else split_comma rest (cur @ [ch]))"

text \<open>\<open>xs[i]\<close> on a list, and \<open>s[-k]\<close> on a string, for \<open>k\<close> 1 or 2.\<close>

definition item :: "'a list \<Rightarrow> nat \<Rightarrow> error + 'a" where
  "item xs i = (if i < length xs then Inr (xs ! i) else Inl IndexError)"

definition from_end :: "string \<Rightarrow> nat \<Rightarrow> error + char" where
  "from_end s k = (if k \<le> length s then Inr (s ! (length s - k)) else Inl IndexError)"

text \<open>
  \<open>CheckersGameTree(Move(f[0:-2], bool(int(f[-2]))), bool(int(f[-1])))\<close> for the first
  field \<open>f\<close> of a row.
\<close>

definition node_of_field :: "string \<Rightarrow> error + CheckersGameTree" where
  "node_of_field f =
     bind (from_end f 2) (\<lambda>c2. bind (py_int [c2]) (\<lambda>cap.
     bind (from_end f 1) (\<lambda>c1. bind (py_int [c1]) (\<lambda>wt.
       Inr (CheckersGameTree \<lparr>move = take (length f - 2) f, piece_captured = (cap \<noteq> 0)\<rparr>
              (wt \<noteq> 0) [])))))"

definition node_of_row :: "string list list \<Rightarrow> nat \<Rightarrow> error + CheckersGameTree" where
  "node_of_row imported_data i =
     bind (item imported_data i) (\<lambda>row. bind (item row 0) node_of_field)"

text \<open>\<open>int(imported_data[i][1])\<close>.\<close>

definition count_of_row :: "string list list \<Rightarrow> nat \<Rightarrow> error + int" where
  "count_of_row imported_data i =
     bind (item imported_data i) (\<lambda>row. bind (item row 1) py_int)"

text \<open>
  \<open>import_compile\<close> builds the root from the first row and runs the while loop;
  \<open>import_loop\<close> is the loop, with the subtrees appended so far, \<open>data_index\<close> and
  \<open>subtrees_added\<close>.  The test of the loop reads the count of the first row only when
  \<open>data_index\<close> is in range.
\<close>

function import_compile :: "string list list \<Rightarrow> error + (CheckersGameTree \<times> nat)"
  and import_loop ::
    "string list list \<Rightarrow> CheckersGameTree list \<Rightarrow> nat \<Rightarrow> int \<Rightarrow> error + (CheckersGameTree list \<times> nat)"
  where
  "import_compile imported_data =
     (case node_of_row imported_data 0 of
        Inl e \<Rightarrow> Inl e
      | Inr root_tree \<Rightarrow>
          (case import_loop imported_data [] 1 0 of
             Inl e \<Rightarrow> Inl e
           | Inr (subs, data_index) \<Rightarrow>
               Inr (CheckersGameTree (node_move root_tree) (white_turn root_tree) subs, data_index)))"
| "import_loop imported_data subs data_index subtrees_added =
     (if data_index < length imported_data then
        (case count_of_row imported_data 0 of
           Inl e \<Rightarrow> Inl e
         | Inr n \<Rightarrow>
             if subtrees_added < n then
               (case count_of_row imported_data data_index of
                  Inl e \<Rightarrow> Inl e
                | Inr k \<Rightarrow>
                    if k = 0 then
                      (case node_of_row imported_data data_index of
                         Inl e \<Rightarrow> Inl e
                       | Inr leaf \<Rightarrow>
                           import_loop imported_data (subs @ [leaf]) (data_index + 1)
                             (subtrees_added + 1))
                    else
                      (case import_compile (drop data_index imported_data) of
                         Inl e \<Rightarrow> Inl e
                       | Inr value_and_skip \<Rightarrow>
                           import_loop imported_data (subs @ [fst value_and_skip])
                             (data_index + snd value_and_skip) (subtrees_added + 1)))
             else Inr (subs, data_index))
      else Inr (subs, data_index))"
  by pat_completeness auto


lemma node_of_row_nonempty: "node_of_row imported_data 0 = Inr t \<Longrightarrow> imported_data \<noteq> []"
  by (auto simp: node_of_row_def item_def bind_def)

termination import_compile
proof (relation "measures
    [\<lambda>x. case x of Inl imported_data \<Rightarrow> length imported_data
                   | Inr (imported_data, subs, data_index, subtrees_added) \<Rightarrow>
                       length imported_data - data_index,
     \<lambda>x. case x of Inl imported_data \<Rightarrow> 0
                   | Inr (imported_data, subs, data_index, subtrees_added) \<Rightarrow>
                       1 + nat ((case count_of_row imported_data 0 of Inl e \<Rightarrow> 0 | Inr n \<Rightarrow> n)
                                - subtrees_added)]", goal_cases)
  case 1
  then show ?case by simp
next
  case (2 imported_data root_tree)
  then show ?case
    using node_of_row_nonempty [of imported_data root_tree] by (cases imported_data) auto
next
  case (3 imported_data subs data_index subtrees_added n k leaf)
  then show ?case by auto
next
  case (4 imported_data subs data_index subtrees_added n k)
  then show ?case by auto
next
  case (5 imported_data subs data_index subtrees_added n k value_and_skip)
  then show ?case by auto
qed

declare import_compile.simps [simp del] import_loop.simps [simp del]

definition import_tree :: "string \<Rightarrow> error + CheckersGameTree" where
  "import_tree file =
     (let all_tree_nodes = rev (map (\<lambda>row. split_comma row []) (file_rows file []))
      in bind (import_compile all_tree_nodes) (\<lambda>final_tree. Inr (fst final_tree)))"

text \<open>
  A root with two leaves, as \<open>generate_game_tree\<close> builds for two opening moves.
\<close>

definition tree_two :: CheckersGameTree where
  "tree_two =
     CheckersGameTree \<lparr>move = [], piece_captured = False\<rparr> True
       [CheckersGameTree \<lparr>move = ''2031'', piece_captured = False\<rparr> False [],
        CheckersGameTree \<lparr>move = ''2231'', piece_captured = False\<rparr> False []]"

text \<open>
  C1 does not hold of the code.  The file \<open>export_tree\<close> leaves of \<open>tree_two\<close> has the
  rows of the two leaves before the row of the root; \<open>import_tree\<close> reverses the rows and
  returns the root with its two subtrees in the reverse order, which is not the tree that
  was exported.  (Had the rows reached the file in the order of the \<open>write\<close> calls,
  \<open>import_tree\<close> would take the last row for the root and return that one leaf.)
\<close>

theorem import_export_not_inverse:
  "rows_in_write_order [] tree_two = ''01,2'' @ [CHR 0x0A] @ ''203100,0'' @ [CHR 0x0A] @ ''223100,0'' @ [CHR 0x0A] \<and>
   import_tree (rows_in_write_order [] tree_two)
     = Inr (CheckersGameTree \<lparr>move = ''2231'', piece_captured = False\<rparr> False []) \<and>
   import_tree (rows_in_write_order [] tree_two) \<noteq> Inr tree_two \<and>
   export_tree [] tree_two
     = ''203100,0'' @ [CHR 0x0A] @ ''223100,0'' @ [CHR 0x0A] @ ''01,2'' @ [CHR 0x0A] \<and>
   import_tree (export_tree [] tree_two)
     = Inr (CheckersGameTree \<lparr>move = [], piece_captured = False\<rparr> True
             [CheckersGameTree \<lparr>move = ''2231'', piece_captured = False\<rparr> False [],
              CheckersGameTree \<lparr>move = ''2031'', piece_captured = False\<rparr> False []]) \<and>
   import_tree (export_tree [] tree_two) \<noteq> Inr tree_two"
  by code_simp

section \<open>Shared boards: the store\<close>

text \<open>
  Python holds a board by reference, and \<open>make_move\<close> rewrites the board in place.  The
  store keeps every board object and every game object at an address (its index); a
  game object holds the address of its board.  The rows and the pieces of a board are
  reached through that board only, so one address stands for the board with its rows
  and pieces.  Address 0 is the module-level \<open>DEFAULT_BOARD_SETUP\<close>.
\<close>

record store =
  boards :: "board_t list"
  games :: "nat CheckersGame_obj list"

definition DEFAULT_BOARD_REF :: nat where
  "DEFAULT_BOARD_REF = 0"

definition initial_store :: store where
  "initial_store = \<lparr>boards = [DEFAULT_BOARD_SETUP], games = []\<rparr>"

text \<open>
  \<open>CheckersGame(is_white_move, board, gamestate)\<close>: \<open>None\<close> for the board stores the
  address of \<open>DEFAULT_BOARD_SETUP\<close> itself.  The result is the address of the new game.
\<close>

definition CheckersGame_init :: "store \<Rightarrow> bool \<Rightarrow> nat option \<Rightarrow> string \<Rightarrow> nat \<times> store" where
  "CheckersGame_init s w board_arg gs =
     (length (games s),
      s\<lparr>games := games s @
          [\<lparr>board = (case board_arg of None \<Rightarrow> DEFAULT_BOARD_REF | Some r \<Rightarrow> r),
            is_white_move = w, gamestate = gs, white_win = True, player_turn = True,
            moves_since_cap = 0, is_draw = False, main_game = True\<rparr>]\<rparr>)"

text \<open>The board a game object holds, and the game with its board, as seen in a store.\<close>

definition board_of :: "store \<Rightarrow> nat \<Rightarrow> board_t" where
  "board_of s self = boards s ! board (games s ! self)"

definition game_value :: "store \<Rightarrow> nat \<Rightarrow> CheckersGame" where
  "game_value s self =
     \<lparr>board = board_of s self,
      is_white_move = is_white_move (games s ! self),
      gamestate = gamestate (games s ! self),
      white_win = white_win (games s ! self),
      player_turn = player_turn (games s ! self),
      moves_since_cap = moves_since_cap (games s ! self),
      is_draw = is_draw (games s ! self),
      main_game = main_game (games s ! self)\<rparr>"

text \<open>
  \<open>make_copy_game\<close>: \<open>deepcopy(self.board)\<close> is a new board object, and the copy a new
  game object that holds it.
\<close>

definition make_copy_game_st :: "store \<Rightarrow> nat \<Rightarrow> nat \<times> store" where
  "make_copy_game_st s self =
     (let s1 = s\<lparr>boards := boards s @ [board_of s self]\<rparr>;
          (copy_game, s2) = CheckersGame_init s1 (is_white_move (games s ! self))
                              (Some (length (boards s))) ''MENU''
      in (copy_game,
          s2\<lparr>games := (games s2)[copy_game := (games s2 ! copy_game)\<lparr>moves_since_cap := 0, main_game := False\<rparr>]\<rparr>))"

text \<open>
  A computation on the store returns a result and the new store, or an exception; the
  outer \<open>option\<close> is \<open>None\<close> when the recursion depth allowed (the first argument of
  the functions below) is used up.
\<close>

type_synonym 'a run = "(error + 'a \<times> store) option"

definition run_bind :: "'a run \<Rightarrow> ('a \<Rightarrow> store \<Rightarrow> 'b run) \<Rightarrow> 'b run" where
  "run_bind r f =
     (case r of None \<Rightarrow> None | Some (Inl e) \<Rightarrow> Some (Inl e) | Some (Inr (x, s)) \<Rightarrow> f x s)"

text \<open>
  The probes on the store.  They read the board of \<open>self\<close>; \<open>_check_additional_capture\<close>
  makes the scratch copy, writes \<open>None\<close> into the board of the copy and probes on from
  the copy.  The directions are those of \<open>chain_dirs\<close>, as proved of the source above.
\<close>

function check_dir_st ::
    "nat \<Rightarrow> direction \<Rightarrow> store \<Rightarrow> nat \<Rightarrow> bool \<Rightarrow> nat \<times> nat \<Rightarrow> Piece \<Rightarrow> bool \<Rightarrow> Move list run"
  and check_additional_capture_st ::
    "nat \<Rightarrow> store \<Rightarrow> nat \<Rightarrow> nat \<times> nat \<Rightarrow> nat \<times> nat \<Rightarrow> Piece \<Rightarrow> Move list run"
  and probes_st ::
    "nat \<Rightarrow> direction list \<Rightarrow> store \<Rightarrow> nat \<Rightarrow> bool \<Rightarrow> nat \<times> nat \<Rightarrow> Piece \<Rightarrow> bool \<Rightarrow> Move list run"
  where
  "check_dir_st depth d s self white loc piece_used double =
     (case depth of
        0 \<Rightarrow> None
      | Suc n \<Rightarrow>
     (if edge_ok d loc then
        (case cell (board_of s self) (step d loc) of
           Inl e \<Rightarrow> Some (Inl e)
         | Inr None \<Rightarrow>
             Some (Inr (if double then []
                        else [\<lparr>move = hop_str loc (step d loc), piece_captured = False\<rparr>], s))
         | Inr (Some q) \<Rightarrow>
             if is_white q \<noteq> white \<and> jump_ok d loc then
               (case cell (board_of s self) (jump d loc) of
                  Inl e \<Rightarrow> Some (Inl e)
                | Inr (Some q') \<Rightarrow> Some (Inr ([], s))
                | Inr None \<Rightarrow>
                    run_bind (check_additional_capture_st n s self loc (jump d loc) piece_used)
                      (\<lambda>chain s'.
                         Some (Inr (\<lparr>move = hop_str loc (jump d loc), piece_captured = True\<rparr>
                                    # chain, s'))))
             else Some (Inr ([], s)))
      else Some (Inr ([], s))))"
| "check_additional_capture_st n s self og_loc loc piece_used =
     (case make_copy_game_st s self of (test_game, s1) \<Rightarrow>
        (case set_cell (board_of s1 test_game) (midpoint og_loc loc) None of
           Inl e \<Rightarrow> Some (Inl e)
         | Inr b' \<Rightarrow>
             run_bind
               (probes_st n (chain_dirs (is_white_move (games s ! self)) piece_used)
                  (s1\<lparr>boards := (boards s1)[board (games s1 ! test_game) := b']\<rparr>)
                  test_game (is_white_move (games s ! self)) loc piece_used True)
               (\<lambda>moves_list s'. Some (Inr (map (prefix_move og_loc) moves_list, s')))))"
| "probes_st n dirs s self white loc piece_used double =
     (case dirs of
        [] \<Rightarrow> Some (Inr ([], s))
      | d # ds \<Rightarrow>
          run_bind (check_dir_st n d s self white loc piece_used double) (\<lambda>m1 s1.
          run_bind (probes_st n ds s1 self white loc piece_used double) (\<lambda>rest s2.
            Some (Inr (m1 @ rest, s2)))))"
  by pat_completeness auto

termination check_dir_st
  by (relation "measures
        [\<lambda>x. case x of Inl (depth, _) \<Rightarrow> depth
                      | Inr (Inl (n, _)) \<Rightarrow> n
                      | Inr (Inr (n, _)) \<Rightarrow> n,
         \<lambda>x. case x of Inl _ \<Rightarrow> 0 | Inr (Inl _) \<Rightarrow> 2 | Inr (Inr _) \<Rightarrow> 1,
         \<lambda>x. case x of Inl _ \<Rightarrow> 0 | Inr (Inl _) \<Rightarrow> 0
                      | Inr (Inr (n, dirs, _)) \<Rightarrow> length dirs]") auto

declare check_dir_st.simps [simp del] check_additional_capture_st.simps [simp del]
  probes_st.simps [simp del]


definition legal_loop_body ::
  "nat \<Rightarrow> nat \<Rightarrow> (nat \<times> nat) \<times> Piece \<Rightarrow> Move list run \<Rightarrow> Move list run" where
  "legal_loop_body n self piece_info acc =
     run_bind acc (\<lambda>normal_moves s.
     run_bind (probes_st n (start_dirs (is_white_move (games s ! self)) (snd piece_info)) s self
                 (is_white_move (games s ! self)) (fst piece_info) (snd piece_info) False)
       (\<lambda>ms s1. Some (Inr (normal_moves @ ms, s1))))"

definition find_legal_moves_st :: "nat \<Rightarrow> store \<Rightarrow> nat \<Rightarrow> Move list run" where
  "find_legal_moves_st n s self =
     (case return_all_pieces_location (game_value s self)
             (if is_white_move (games s ! self) then ''white'' else ''black'') of
        Inl e \<Rightarrow> Some (Inl e)
      | Inr pieces_to_check \<Rightarrow>
          run_bind (fold (legal_loop_body n self) pieces_to_check (Some (Inr ([], s))))
            (\<lambda>normal_moves s'. Some (Inr (captures_first normal_moves, s'))))"

subsection \<open>What a computation leaves of the store\<close>

definition valid :: "store \<Rightarrow> nat \<Rightarrow> bool" where
  "valid s self = (self < length (games s) \<and> board (games s ! self) < length (boards s))"

definition extends :: "store \<Rightarrow> store \<Rightarrow> bool" where
  "extends s s' =
     (length (boards s) \<le> length (boards s') \<and> take (length (boards s)) (boards s') = boards s \<and>
      length (games s) \<le> length (games s') \<and> take (length (games s)) (games s') = games s)"

lemma extends_refl: "extends s s"
  by (simp add: extends_def)

lemma take_take_le:
  "length xs \<le> length ys \<Longrightarrow> take (length xs) ys = xs \<Longrightarrow> take (length ys) zs = ys \<Longrightarrow>
   take (length xs) zs = xs"
proof -
  assume a: "length xs \<le> length ys" "take (length xs) ys = xs" "take (length ys) zs = ys"
  have "take (length xs) zs = take (length xs) (take (length ys) zs)"
    using a(1) by (simp add: min_absorb1)
  with a(2,3) show ?thesis by simp
qed

lemma extends_trans:
  assumes "extends s s1" "extends s1 s2"
  shows "extends s s2"
proof -
  from assms have b: "length (boards s) \<le> length (boards s1)" "take (length (boards s)) (boards s1) = boards s"
    "length (boards s1) \<le> length (boards s2)" "take (length (boards s1)) (boards s2) = boards s1"
    and g: "length (games s) \<le> length (games s1)" "take (length (games s)) (games s1) = games s"
    "length (games s1) \<le> length (games s2)" "take (length (games s1)) (games s2) = games s1"
    by (simp_all add: extends_def)
  have "take (length (boards s)) (boards s2) = boards s"
    using b(1,2,4) by (rule take_take_le)
  moreover have "take (length (games s)) (games s2) = games s"
    using g(1,2,4) by (rule take_take_le)
  ultimately show ?thesis
    using b(1,3) g(1,3) by (simp add: extends_def)
qed


lemma extends_nth:
  assumes "extends s s'"
  shows "r < length (boards s) \<Longrightarrow> boards s' ! r = boards s ! r"
    and "a < length (games s) \<Longrightarrow> games s' ! a = games s ! a"
proof -
  show "r < length (boards s) \<Longrightarrow> boards s' ! r = boards s ! r"
    using assms nth_take [of r "length (boards s)" "boards s'"] by (simp add: extends_def)
  show "a < length (games s) \<Longrightarrow> games s' ! a = games s ! a"
    using assms nth_take [of a "length (games s)" "games s'"] by (simp add: extends_def)
qed

lemma extends_valid:
  assumes "extends s s'" "valid s a"
  shows "valid s' a" "games s' ! a = games s ! a" "board_of s' a = board_of s a"
    "game_value s' a = game_value s a"
proof -
  from assms have g: "games s' ! a = games s ! a"
    by (simp add: extends_nth valid_def)
  from assms have b: "boards s' ! board (games s ! a) = boards s ! board (games s ! a)"
    by (simp add: extends_nth valid_def)
  show "games s' ! a = games s ! a" by (rule g)
  show "board_of s' a = board_of s a" by (simp add: board_of_def g b)
  then show "game_value s' a = game_value s a" by (simp add: game_value_def g)
  from assms show "valid s' a"
    by (auto simp: valid_def g extends_def)
qed

text \<open>The scratch copy with one square cleared, as \<open>_check_additional_capture\<close> builds it.\<close>

definition scratch_store :: "store \<Rightarrow> nat \<Rightarrow> board_t \<Rightarrow> store" where
  "scratch_store s self b' =
     (let s1 = snd (make_copy_game_st s self);
          test_game = fst (make_copy_game_st s self)
      in s1\<lparr>boards := (boards s1)[board (games s1 ! test_game) := b']\<rparr>)"

lemma make_copy_game_st_simps:
  "fst (make_copy_game_st s self) = length (games s)"
  "boards (snd (make_copy_game_st s self)) = boards s @ [board_of s self]"
  "games (snd (make_copy_game_st s self)) = games s @
     [\<lparr>board = length (boards s), is_white_move = is_white_move (games s ! self),
       gamestate = ''MENU'', white_win = True, player_turn = True, moves_since_cap = 0,
       is_draw = False, main_game = False\<rparr>]"
  by (simp_all add: make_copy_game_st_def CheckersGame_init_def Let_def)

lemma board_of_copy:
  "board_of (snd (make_copy_game_st s self)) (fst (make_copy_game_st s self)) = board_of s self"
  by (simp add: board_of_def [of "snd (make_copy_game_st s self)"] make_copy_game_st_simps)

lemma scratch_store_props:
  shows "extends s (scratch_store s self b')"
    and "valid (scratch_store s self b') (length (games s))"
    and "game_value (scratch_store s self b') (length (games s))
           = (make_copy_game (game_value s self))\<lparr>board := b'\<rparr>"
proof -
  let ?s2 = "scratch_store s self b'"
  have b: "boards ?s2 = boards s @ [b']"
    by (simp add: scratch_store_def Let_def make_copy_game_st_simps)
  have g: "games ?s2 = games s @
     [\<lparr>board = length (boards s), is_white_move = is_white_move (games s ! self),
       gamestate = ''MENU'', white_win = True, player_turn = True, moves_since_cap = 0,
       is_draw = False, main_game = False\<rparr>]"
    by (simp add: scratch_store_def Let_def make_copy_game_st_simps)
  show "extends s ?s2"
    by (simp add: extends_def b g)
  show "valid ?s2 (length (games s))"
    by (simp add: valid_def b g)
  show "game_value ?s2 (length (games s)) = (make_copy_game (game_value s self))\<lparr>board := b'\<rparr>"
    by (simp add: game_value_def [of ?s2] board_of_def [of ?s2] b g make_copy_game_def
          new_CheckersGame_def game_value_def [of s])
qed

lemma check_additional_capture_st_unfold:
  "check_additional_capture_st n s self og_loc loc piece_used =
     (case set_cell (board_of s self) (midpoint og_loc loc) None of
        Inl e \<Rightarrow> Some (Inl e)
      | Inr b' \<Rightarrow>
          run_bind
            (probes_st n (chain_dirs (is_white_move (games s ! self)) piece_used)
               (scratch_store s self b') (length (games s))
               (is_white_move (games s ! self)) loc piece_used True)
            (\<lambda>moves_list s'. Some (Inr (map (prefix_move og_loc) moves_list, s'))))"
  apply (subst check_additional_capture_st.simps)
  apply (simp only: case_prod_beta board_of_copy scratch_store_def Let_def)
  apply (simp only: make_copy_game_st_simps(1))
  done

subsection \<open>The probes on the store compute what the probes on values compute\<close>

lemma game_value_simps [simp]:
  "board (game_value s self) = board_of s self"
  "is_white_move (game_value s self) = is_white_move (games s ! self)"
  by (simp_all add: game_value_def)

lemma run_bind_Some [simp]: "run_bind (Some (Inr (x, s))) f = f x s"
  by (simp add: run_bind_def)

lemma probes_st_refines:
  assumes step: "\<And>d s. valid s self \<Longrightarrow> game_value s self = g \<Longrightarrow>
      \<exists>ms s'. check_dir_st n d s self white loc piece_used double = Some (Inr (ms, s')) \<and>
              check_dir d g white loc piece_used double = Inr ms \<and> extends s s'"
    and "valid s self" "game_value s self = g"
  shows "\<exists>ms s'. probes_st n ds s self white loc piece_used double = Some (Inr (ms, s')) \<and>
              probes ds g white loc piece_used double = Inr ms \<and> extends s s'"
  using assms(2,3)
proof (induction ds arbitrary: s)
  case Nil
  then show ?case
    by (simp add: probes_st.simps [of n "[]"] extends_refl)
next
  case (Cons d ds)
  from step [OF Cons.prems] obtain m1 s1 where
    c: "check_dir_st n d s self white loc piece_used double = Some (Inr (m1, s1))"
    and v: "check_dir d g white loc piece_used double = Inr m1" and e: "extends s s1"
    by blast
  have v1: "valid s1 self" and g1: "game_value s1 self = g"
    using extends_valid [OF e Cons.prems(1)] Cons.prems(2) by simp_all
  from Cons.IH [OF v1 g1] obtain rest s2 where
    p: "probes_st n ds s1 self white loc piece_used double = Some (Inr (rest, s2))"
    and pv: "probes ds g white loc piece_used double = Inr rest" and e2: "extends s1 s2"
    by blast
  have "probes_st n (d # ds) s self white loc piece_used double = Some (Inr (m1 @ rest, s2))"
    by (simp add: probes_st.simps [of n "d # ds"] c p)
  moreover have "probes (d # ds) g white loc piece_used double = Inr (m1 @ rest)"
    by (simp add: v pv bind_def)
  ultimately show ?case
    using extends_trans [OF e e2] by blast
qed

lemma check_dir_st_refines:
  "valid s self \<Longrightarrow> wf_board (board_of s self) \<Longrightarrow> on_board loc \<Longrightarrow>
   count_pieces (board_of s self) < n \<Longrightarrow>
   \<exists>ms s'. check_dir_st n d s self white loc piece_used double = Some (Inr (ms, s')) \<and>
           check_dir d (game_value s self) white loc piece_used double = Inr ms \<and> extends s s'"
proof (induction n arbitrary: d s self white loc piece_used double)
  case 0
  then show ?case by simp
next
  case (Suc n)
  let ?g = "game_value s self"
  let ?b = "board_of s self"
  note st = check_dir_st.simps [of "Suc n" d s self white loc piece_used double]
  note vl = check_dir_unfold [of d ?g white loc piece_used double]
  show ?case
  proof (cases "edge_ok d loc")
    case False
    then show ?thesis
      by (simp add: st vl extends_refl)
  next
    case edge: True
    have c1: "cell ?b (step d loc) = Inr (?b ! fst (step d loc) ! snd (step d loc))"
      using Suc.prems edge by (simp add: cell_wf on_board_step)
    show ?thesis
    proof (cases "?b ! fst (step d loc) ! snd (step d loc)")
      case None
      with edge c1 show ?thesis
        by (simp add: st vl extends_refl)
    next
      case (Some q)
      show ?thesis
      proof (cases "is_white q \<noteq> white \<and> jump_ok d loc")
        case False
        with edge c1 Some show ?thesis
          by (auto simp add: st vl extends_refl)
      next
        case enemy: True
        have on2: "on_board (jump d loc)"
          using Suc.prems enemy by (simp add: on_board_jump)
        have c2: "cell ?b (jump d loc) = Inr (?b ! fst (jump d loc) ! snd (jump d loc))"
          using Suc.prems on2 by (simp add: cell_wf)
        show ?thesis
        proof (cases "?b ! fst (jump d loc) ! snd (jump d loc)")
          case (Some q')
          with edge c1 \<open>_ = Some q\<close> enemy c2 show ?thesis
            by (simp add: st vl extends_refl)
        next
          case land: None
          let ?b' = "put ?b (step d loc) None"
          let ?s2 = "scratch_store s self ?b'"
          let ?tg = "length (games s)"
          let ?w = "is_white_move (games s ! self)"
          have sc: "set_cell ?b (midpoint loc (jump d loc)) None = Inr ?b'"
            using c1 edge enemy by (auto simp: midpoint_jump set_cell_def cell_def split: if_splits)
          have gv: "game_value ?s2 ?tg = capture_game ?g (step d loc)"
            by (simp add: scratch_store_props(3) capture_game_def)
          have e2: "extends s ?s2" and v2: "valid ?s2 ?tg"
            by (rule scratch_store_props)+
          have bo: "board_of ?s2 ?tg = ?b'"
            using arg_cong [OF gv, of board] by simp
          have wf2: "wf_board ?b'"
            using Suc.prems(2) by (rule wf_board_put)
          have cnt: "count_pieces ?b' < n"
            using count_pieces_put_None [of ?b "step d loc" q] c1 \<open>_ = Some q\<close> Suc.prems(4)
            by simp
          have "\<exists>ml s'. probes_st n (chain_dirs ?w piece_used) ?s2 ?tg ?w (jump d loc) piece_used True
                    = Some (Inr (ml, s')) \<and>
                  probes (chain_dirs ?w piece_used) (capture_game ?g (step d loc)) ?w (jump d loc)
                    piece_used True = Inr ml \<and> extends ?s2 s'"
          proof (rule probes_st_refines [OF _ v2 gv])
            fix d' t
            assume vt: "valid t ?tg" and gt: "game_value t ?tg = capture_game ?g (step d loc)"
            have bt: "board_of t ?tg = ?b'"
              using arg_cong [OF gt, of board] by simp
            from Suc.IH [OF vt _ on2, of d' ?w piece_used True] wf2 cnt bt gt
            show "\<exists>ms s'. check_dir_st n d' t ?tg ?w (jump d loc) piece_used True = Some (Inr (ms, s')) \<and>
                check_dir d' (capture_game ?g (step d loc)) ?w (jump d loc) piece_used True = Inr ms \<and>
                extends t s'"
              by simp
          qed
          then obtain ml s' where
            p: "probes_st n (chain_dirs ?w piece_used) ?s2 ?tg ?w (jump d loc) piece_used True
                    = Some (Inr (ml, s'))"
            and pv: "probes (chain_dirs ?w piece_used) (capture_game ?g (step d loc)) ?w (jump d loc)
                    piece_used True = Inr ml"
            and e': "extends ?s2 s'"
            by blast
          have "check_dir_st (Suc n) d s self white loc piece_used double
                  = Some (Inr (\<lparr>move = hop_str loc (jump d loc), piece_captured = True\<rparr>
                               # map (prefix_move loc) ml, s'))"
            using edge c1 \<open>_ = Some q\<close> enemy c2 land
            by (simp add: st check_additional_capture_st_unfold sc p)
          moreover have "check_dir d ?g white loc piece_used double
                  = Inr (\<lparr>move = hop_str loc (jump d loc), piece_captured = True\<rparr>
                         # map (prefix_move loc) ml)"
            using edge c1 \<open>_ = Some q\<close> enemy c2 land
            by (simp add: vl pv bind_def)
          ultimately show ?thesis
            using extends_trans [OF e2 e'] by blast
        qed
      qed
    qed
  qed
qed

lemma fold_legal_loop_body:
  assumes "valid s self" "game_value s self = g" "wf_board (board g)" "count_pieces (board g) < n"
    and "\<forall>pi\<in>set ps. on_board (fst pi)"
  shows "\<exists>ms s'. fold (legal_loop_body n self) ps (Some (Inr (acc, s))) = Some (Inr (ms, s')) \<and>
           fold (piece_probes g) ps (Inr acc) = Inr ms \<and> extends s s'"
  using assms(1,2,5)
proof (induction ps arbitrary: acc s)
  case Nil
  then show ?case by (simp add: extends_refl)
next
  case (Cons pi ps)
  let ?w = "is_white_move g"
  have w: "is_white_move (games s ! self) = ?w"
    using arg_cong [OF Cons.prems(2), of is_white_move] by simp
  have on: "on_board (fst pi)"
    using Cons.prems(3) by simp
  have "\<exists>ms s'. probes_st n (start_dirs ?w (snd pi)) s self ?w (fst pi) (snd pi) False
                   = Some (Inr (ms, s')) \<and>
                probes (start_dirs ?w (snd pi)) g ?w (fst pi) (snd pi) False = Inr ms \<and>
                extends s s'"
  proof (rule probes_st_refines [OF _ Cons.prems(1,2)])
    fix d t
    assume vt: "valid t self" and gt: "game_value t self = g"
    have bt: "board_of t self = board g"
      using arg_cong [OF gt, of board] by simp
    from check_dir_st_refines [OF vt _ on, of n d ?w "snd pi" False] bt gt assms(3,4)
    show "\<exists>ms s'. check_dir_st n d t self ?w (fst pi) (snd pi) False = Some (Inr (ms, s')) \<and>
            check_dir d g ?w (fst pi) (snd pi) False = Inr ms \<and> extends t s'"
      by simp
  qed
  then obtain ms s1 where
    p: "probes_st n (start_dirs ?w (snd pi)) s self ?w (fst pi) (snd pi) False = Some (Inr (ms, s1))"
    and pv: "probes (start_dirs ?w (snd pi)) g ?w (fst pi) (snd pi) False = Inr ms"
    and e: "extends s s1"
    by blast
  have v1: "valid s1 self" and g1: "game_value s1 self = g"
    using extends_valid [OF e Cons.prems(1)] Cons.prems(2) by simp_all
  have b: "legal_loop_body n self pi (Some (Inr (acc, s))) = Some (Inr (acc @ ms, s1))"
    by (simp add: legal_loop_body_def w p)
  have bv: "piece_probes g pi (Inr acc) = Inr (acc @ ms)"
    by (simp add: piece_probes_eq pv)
  from Cons.IH [OF v1 g1, of "acc @ ms"] Cons.prems(3) obtain ms' s' where
    "fold (legal_loop_body n self) ps (Some (Inr (acc @ ms, s1))) = Some (Inr (ms', s'))"
    "fold (piece_probes g) ps (Inr (acc @ ms)) = Inr ms'" "extends s1 s'"
    by auto
  then show ?case
    using extends_trans [OF e] by (simp add: b bv)
qed

lemma find_legal_moves_st_refines:
  assumes "valid s self" "wf_board (board_of s self)" "count_pieces (board_of s self) < depth"
  shows "\<exists>moves s'. find_legal_moves_st depth s self = Some (Inr (moves, s')) \<and>
           find_legal_moves (game_value s self) = Inr moves \<and> extends s s'"
proof -
  let ?g = "game_value s self"
  let ?col = "if is_white_move ?g then ''white'' else ''black''"
  let ?ps = "pieces_on (board ?g) ?col all_squares"
  have r: "return_all_pieces_location ?g ?col = Inr ?ps"
    using assms(2) by (simp add: return_all_pieces_location_wf)
  have on: "\<forall>pi\<in>set ?ps. on_board (fst pi)"
  proof
    fix pi assume "pi \<in> set ?ps"
    then show "on_board (fst pi)"
      using pieces_on_member [of "fst pi" "snd pi" "board ?g" ?col all_squares]
      by (simp add: set_all_squares)
  qed
  from fold_legal_loop_body [OF assms(1) refl _ _ on, of depth "[]"] assms(2,3)
  obtain ms s' where
    f: "fold (legal_loop_body depth self) ?ps (Some (Inr ([], s))) = Some (Inr (ms, s'))"
    and fv: "fold (piece_probes ?g) ?ps (Inr []) = Inr ms" and e: "extends s s'"
    by auto
  have "find_legal_moves_st depth s self = Some (Inr (captures_first ms, s'))"
    using r f by (simp add: find_legal_moves_st_def)
  moreover have "find_legal_moves ?g = Inr (captures_first ms)"
    using r fv by (simp add: find_legal_moves_def)
  ultimately show ?thesis
    using e by blast
qed

definition store_b :: store where
  "store_b = snd (CheckersGame_init (initial_store\<lparr>boards := boards initial_store @ [board_b]\<rparr>)
                    True (Some 1) ''GAME'')"

text \<open>
  C9.  \<open>find_legal_moves\<close> on a game object of the store (an 8 by 8 board, and a
  recursion depth that allows a chain as long as the board has pieces) returns the
  list of legal moves, and leaves the state as it was: the game object \<open>self\<close> and the
  board it holds (so the board contents, \<open>is_white_move\<close>, \<open>moves_since_cap\<close>,
  \<open>gamestate\<close>, \<open>white_win\<close> and \<open>is_draw\<close>) are what they were before the call, and so is
  every other board and game object there was; all the call does to the store is
  to add the scratch copies of the capture probes.
\<close>

theorem find_legal_moves_leaves_state:
  assumes "valid s self" "wf_board (board_of s self)" "count_pieces (board_of s self) < depth"
  shows "\<exists>moves s'. find_legal_moves_st depth s self = Some (Inr (moves, s')) \<and>
           find_legal_moves (game_value s self) = Inr moves \<and>
           games s' ! self = games s ! self \<and>
           board_of s' self = board_of s self \<and>
           game_value s' self = game_value s self \<and>
           take (length (boards s)) (boards s') = boards s \<and>
           take (length (games s)) (games s') = games s"
proof -
  from find_legal_moves_st_refines [OF assms] obtain moves s' where
    h: "find_legal_moves_st depth s self = Some (Inr (moves, s'))"
       "find_legal_moves (game_value s self) = Inr moves" "extends s s'"
    by blast
  from extends_valid [OF h(3) assms(1)] h show ?thesis
    by (simp add: extends_def)
qed

theorem find_legal_moves_leaves_state_witness:
  "valid store_b 0 \<and> wf_board (board_of store_b 0) \<and> count_pieces (board_of store_b 0) < 5 \<and>
   find_legal_moves (game_value store_b 0) = Inr [\<lparr>move = ''0022'', piece_captured = True\<rparr>,
                                                  \<lparr>move = ''002244'', piece_captured = True\<rparr>] \<and>
   (\<exists>s'. find_legal_moves_st 5 store_b 0 = Some (Inr ([\<lparr>move = ''0022'', piece_captured = True\<rparr>,
                                                  \<lparr>move = ''002244'', piece_captured = True\<rparr>], s')) \<and>
      length (boards store_b) < length (boards s') \<and>
      games s' ! 0 = games store_b ! 0 \<and>
      board_of s' 0 = board_b \<and>
      game_value s' 0 = game_value store_b 0 \<and>
      take (length (boards store_b)) (boards s') = boards store_b \<and>
      take (length (games store_b)) (games s') = games store_b)"
proof -
  have a: "valid store_b 0" "wf_board (board_of store_b 0)" "count_pieces (board_of store_b 0) < 5"
    by code_simp+
  have v: "find_legal_moves (game_value store_b 0) = Inr [\<lparr>move = ''0022'', piece_captured = True\<rparr>,
                                                  \<lparr>move = ''002244'', piece_captured = True\<rparr>]"
    by code_simp
  have b: "board_of store_b 0 = board_b"
    by code_simp
  have l: "map_option (map_sum id (\<lambda>r. length (boards store_b) < length (boards (snd r))))
             (find_legal_moves_st 5 store_b 0) = Some (Inr True)"
    by code_simp
  from find_legal_moves_leaves_state [OF a] v l b a show ?thesis
    by auto
qed

end
